theory Spec2Isabelle
  imports Complex_Main "HOL-Library.Sublist"
begin

section \<open>Segmented transcription of whisper-web-transcriber (src/app.py)\<close>

text \<open>
  The development embeds the transcription core of \<^verbatim>\<open>src/app.py\<close>: the window
  planning and the overlap merge of \<^verbatim>\<open>transcribe_with_progress\<close>, the fallback
  chain of \<^verbatim>\<open>transcribe_with_interrupt\<close>, the task body
  \<^verbatim>\<open>transcribe_audio_process\<close> with its \<^verbatim>\<open>finally\<close> block, the worker loop
  body of \<^verbatim>\<open>transcription_worker\<close> and the locked block of \<^verbatim>\<open>add_to_queue\<close>.

  Conventions of the embedding.
  \<^item> Python floats (durations, timestamps) are exact rationals; rounding is not modelled.
  \<^item> A Python \<^verbatim>\<open>str\<close> is a list of code points (natural numbers).
  \<^item> The inference capability, the file system and the configuration are parameters
    (record \<open>env\<close>); an outcome \<open>None\<close> of a parameter stands for a raised exception.
  \<^item> \<^verbatim>\<open>socketio.emit('task_update', ...)\<close> appends to an event log and does not raise;
    of the payload the task id, the status and the queue position are kept.
    \<^verbatim>\<open>log_message\<close> only logs and is left out.
\<close>

subsection \<open>Python strings\<close>

type_synonym pystr = "nat list"

text \<open>\<^verbatim>\<open>str.isspace\<close> on one code point (the whitespace code points of CPython).\<close>

definition isspace :: "nat \<Rightarrow> bool" where
  "isspace c \<longleftrightarrow>
     (9 \<le> c \<and> c \<le> 13) \<or> (28 \<le> c \<and> c \<le> 32) \<or> c = 133 \<or> c = 160 \<or> c = 5760 \<or>
     (8192 \<le> c \<and> c \<le> 8202) \<or> c = 8232 \<or> c = 8233 \<or> c = 8239 \<or> c = 8287 \<or> c = 12288"

text \<open>An ASCII literal as a Python string.\<close>

definition py :: "string \<Rightarrow> pystr" where
  "py s = map of_char s"

text \<open>\<^verbatim>\<open>s.strip()\<close>\<close>

definition strip :: "pystr \<Rightarrow> pystr" where
  "strip s = rev (dropWhile isspace (rev (dropWhile isspace s)))"

text \<open>\<^verbatim>\<open>s.split()\<close>: the maximal runs of non-whitespace, in order.\<close>

fun split_aux :: "pystr \<Rightarrow> pystr \<Rightarrow> pystr list" where
  "split_aux [] cur = (if cur = [] then [] else [cur])"
| "split_aux (c # cs) cur =
     (if isspace c then (if cur = [] then split_aux cs [] else cur # split_aux cs [])
      else split_aux cs (cur @ [c]))"

definition split :: "pystr \<Rightarrow> pystr list" where
  "split s = split_aux s []"

text \<open>\<^verbatim>\<open>' '.join(ws)\<close>\<close>

fun join :: "pystr list \<Rightarrow> pystr" where
  "join [] = []"
| "join [w] = w"
| "join (w # v # ws) = w @ 32 # join (v # ws)"

text \<open>\<^verbatim>\<open>p in s\<close> for strings: \<open>p\<close> occurs as a contiguous block of \<open>s\<close>.\<close>

fun is_in :: "pystr \<Rightarrow> pystr \<Rightarrow> bool" where
  "is_in p [] = (p = [])"
| "is_in p (c # s) = (prefix p (c # s) \<or> is_in p s)"

text \<open>\<^verbatim>\<open>s[-n:]\<close> for \<open>n \<ge> 0\<close>; with \<open>n = 0\<close> Python's \<^verbatim>\<open>s[-0:]\<close> is the whole string.\<close>

definition tail_slice :: "nat \<Rightarrow> pystr \<Rightarrow> pystr" where
  "tail_slice n s = (if n = 0 then s else drop (length s - n) s)"

text \<open>\<^verbatim>\<open>s.endswith(' ')\<close>\<close>

definition ends_with_space :: "pystr \<Rightarrow> bool" where
  "ends_with_space s \<longleftrightarrow> s \<noteq> [] \<and> last s = 32"

subsection \<open>Window planning and slicing (lines 259--286)\<close>

text \<open>\<^verbatim>\<open>whisper.audio.SAMPLE_RATE\<close>\<close>

definition SAMPLE_RATE :: rat where
  "SAMPLE_RATE = 16000"

definition overlap_duration :: rat where
  "overlap_duration = 2"

text \<open>\<^verbatim>\<open>total_segments = int(np.ceil(total_duration / segment_duration))\<close>;
  \<^verbatim>\<open>range\<close> of a non-positive count is empty.\<close>

definition total_segments :: "rat \<Rightarrow> rat \<Rightarrow> nat" where
  "total_segments D W = nat \<lceil>D / W\<rceil>"

definition start_time :: "rat \<Rightarrow> nat \<Rightarrow> rat" where
  "start_time W i = (if i > 0 then of_nat i * W - overlap_duration else of_nat i * W)"

definition end_time :: "rat \<Rightarrow> rat \<Rightarrow> nat \<Rightarrow> rat" where
  "end_time D W i = min (of_nat (i + 1) * W) D"

text \<open>\<^verbatim>\<open>int(x)\<close> on a float: truncation towards zero.\<close>

definition py_int :: "rat \<Rightarrow> int" where
  "py_int x = (if 0 \<le> x then \<lfloor>x\<rfloor> else \<lceil>x\<rceil>)"

definition start_sample :: "rat \<Rightarrow> nat \<Rightarrow> int" where
  "start_sample W i = py_int (start_time W i * SAMPLE_RATE)"

definition end_sample :: "rat \<Rightarrow> rat \<Rightarrow> nat \<Rightarrow> int" where
  "end_sample D W i = py_int (end_time D W i * SAMPLE_RATE)"

text \<open>A bound \<open>k\<close> of a slice of a sequence of length \<open>n\<close>: a negative bound counts
  from the end; the result is clamped to \<open>[0, n]\<close>.\<close>

definition slice_index :: "int \<Rightarrow> nat \<Rightarrow> nat" where
  "slice_index k n = (if k < 0 then nat (max 0 (int n + k)) else min (nat k) n)"

text \<open>\<^verbatim>\<open>xs[lo:hi]\<close>\<close>

definition py_slice :: "int \<Rightarrow> int \<Rightarrow> 'a list \<Rightarrow> 'a list" where
  "py_slice lo hi xs =
     (let l = slice_index lo (length xs); h = slice_index hi (length xs)
      in take (h - l) (drop l xs))"

text \<open>\<^verbatim>\<open>segment_audio = audio_data[start_sample:end_sample]\<close> of round \<open>i\<close> of the loop,
  with \<^verbatim>\<open>total_duration = len(audio_data) / sample_rate\<close>.\<close>

definition segment_audio :: "'a list \<Rightarrow> rat \<Rightarrow> nat \<Rightarrow> 'a list" where
  "segment_audio audio_data W i =
     (let total_duration = of_nat (length audio_data) / SAMPLE_RATE
      in py_slice (start_sample W i) (end_sample total_duration W i) audio_data)"


subsection \<open>Window results and the overlap merge (lines 314--388)\<close>

text \<open>A sub-segment of a window result: the keys \<^verbatim>\<open>start\<close>, \<^verbatim>\<open>end\<close>, \<^verbatim>\<open>text\<close>.\<close>

record seg =
  seg_start :: rat
  seg_end :: rat
  seg_text :: pystr

text \<open>The dictionary returned by \<^verbatim>\<open>model.transcribe\<close> on one window; each of its keys
  \<^verbatim>\<open>text\<close>, \<^verbatim>\<open>segments\<close>, \<^verbatim>\<open>language\<close> may be absent.\<close>

record window_result =
  wr_text :: "pystr option"
  wr_segments :: "seg list option"
  wr_language :: "string option"

text \<open>\<^verbatim>\<open>if not combined_text.endswith(' '): combined_text += " "\<close> followed by
  \<^verbatim>\<open>combined_text += t\<close>.\<close>

definition add_text :: "pystr \<Rightarrow> pystr \<Rightarrow> pystr" where
  "add_text combined_text t =
     (if \<not> ends_with_space combined_text then combined_text @ [32] else combined_text) @ t"

text \<open>\<^verbatim>\<open>max_check_words = min(5 if i == len(segments) - 1 else 10, len(words))\<close>\<close>

definition max_check_words :: "bool \<Rightarrow> pystr list \<Rightarrow> nat" where
  "max_check_words is_last words = min (if is_last then 5 else 10) (length words)"

text \<open>The test of line 339 for the prefix \<^verbatim>\<open>words[:j+1]\<close>.\<close>

definition phrase_matches :: "pystr \<Rightarrow> pystr list \<Rightarrow> nat \<Rightarrow> bool" where
  "phrase_matches combined_text words j =
     (let test_phrase = join (take (j + 1) words)
      in length test_phrase > 3 \<and>
         is_in test_phrase (tail_slice (length test_phrase * 3) combined_text))"

text \<open>The loop \<^verbatim>\<open>for j in range(max_check_words)\<close> with its two \<^verbatim>\<open>break\<close>s. The result
  is \<open>Some\<close> of the new \<^verbatim>\<open>combined_text\<close> when \<^verbatim>\<open>overlap_found\<close> was set, \<open>None\<close> when
  the loop ran to its end.\<close>

fun scan_overlap :: "bool \<Rightarrow> pystr list \<Rightarrow> pystr \<Rightarrow> nat list \<Rightarrow> pystr option" where
  "scan_overlap is_last words combined_text [] = None"
| "scan_overlap is_last words combined_text (j # js) =
     (if phrase_matches combined_text words j then
        (let remaining_text = join (drop (j + 1) words) in
         if remaining_text \<noteq> [] then Some (add_text combined_text remaining_text)
         else if is_last \<and> int j < int (length words) - 1 then
           (let keep_from = max j (length words div 2);
                remaining_text = join (drop keep_from words)
            in Some (if remaining_text \<noteq> [] then add_text combined_text remaining_text
                     else combined_text))
         else scan_overlap is_last words combined_text js)
      else scan_overlap is_last words combined_text js)"

text \<open>The text part of one iteration of \<^verbatim>\<open>for i, segment_result in enumerate(segments)\<close>;
  \<open>n\<close> is \<^verbatim>\<open>len(segments)\<close>.\<close>

definition merge_text :: "nat \<Rightarrow> nat \<Rightarrow> window_result \<Rightarrow> pystr \<Rightarrow> pystr" where
  "merge_text n i segment_result combined_text =
     (case wr_text segment_result of
        None \<Rightarrow> combined_text
      | Some t \<Rightarrow>
          (let current_text = strip t in
           if i = 0 then current_text
           else if current_text = [] then combined_text
           else
             (let words = split current_text in
              if length words > 0 then
                (case scan_overlap (int i = int n - 1) words combined_text
                        [0..<max_check_words (int i = int n - 1) words] of
                   Some c \<Rightarrow> c
                 | None \<Rightarrow> add_text combined_text current_text)
              else combined_text)))"

text \<open>\<^verbatim>\<open>base_time = i * segment_duration\<close>, less the overlap when \<^verbatim>\<open>i > 0\<close>.\<close>

definition base_time :: "rat \<Rightarrow> nat \<Rightarrow> rat" where
  "base_time W i = (if i > 0 then of_nat i * W - overlap_duration else of_nat i * W)"

definition adjust :: "rat \<Rightarrow> seg \<Rightarrow> seg" where
  "adjust b s = s\<lparr>seg_start := seg_start s + b, seg_end := seg_end s + b\<rparr>"

text \<open>The loop \<^verbatim>\<open>for seg in segment_result['segments']\<close>.\<close>

fun add_segments :: "rat \<Rightarrow> nat \<Rightarrow> seg list \<Rightarrow> seg list \<Rightarrow> seg list" where
  "add_segments W i [] all_segments = all_segments"
| "add_segments W i (s # ss) all_segments =
     (let adjusted_seg = adjust (base_time W i) s in
      add_segments W i ss
        (if i = 0 \<or> seg_start adjusted_seg \<ge> of_nat i * W - overlap_duration / 2
         then all_segments @ [adjusted_seg] else all_segments))"

definition merge_segments :: "rat \<Rightarrow> nat \<Rightarrow> window_result \<Rightarrow> seg list \<Rightarrow> seg list" where
  "merge_segments W i segment_result all_segments =
     (case wr_segments segment_result of
        None \<Rightarrow> all_segments
      | Some ss \<Rightarrow> add_segments W i ss all_segments)"

fun merge_loop ::
  "rat \<Rightarrow> nat \<Rightarrow> nat \<Rightarrow> window_result list \<Rightarrow> pystr \<times> seg list \<Rightarrow> pystr \<times> seg list" where
  "merge_loop W n i [] st = st"
| "merge_loop W n i (r # rs) (combined_text, all_segments) =
     merge_loop W n (Suc i) rs (merge_text n i r combined_text, merge_segments W i r all_segments)"

text \<open>The merge of lines 314--379: \<^verbatim>\<open>(combined_text, all_segments)\<close>.\<close>

definition merge_results :: "rat \<Rightarrow> window_result list \<Rightarrow> pystr \<times> seg list" where
  "merge_results W segments = merge_loop W (length segments) 0 segments ([], [])"

definition final_text :: "rat \<Rightarrow> window_result list \<Rightarrow> pystr" where
  "final_text W segments = fst (merge_results W segments)"

definition final_segments :: "rat \<Rightarrow> window_result list \<Rightarrow> seg list" where
  "final_segments W segments = snd (merge_results W segments)"

text \<open>The dictionary a transcription returns to its caller.\<close>

record result =
  res_text :: pystr
  res_segments :: "seg list"
  res_language :: "string option"

definition final_result :: "rat \<Rightarrow> string option \<Rightarrow> window_result list \<Rightarrow> result" where
  "final_result W lang segments =
     \<lparr>res_text = final_text W segments,
      res_segments = final_segments W segments,
      res_language =
        (case segments of [] \<Rightarrow> lang
         | r # _ \<Rightarrow> (case wr_language r of None \<Rightarrow> lang | Some l \<Rightarrow> Some l))\<rparr>"

subsection \<open>The environment and the observable state\<close>

text \<open>What the external collaborators do for the task at hand. \<open>None\<close> is a raised
  exception. \<open>segment_duration\<close> is \<^verbatim>\<open>config.SEGMENT_DURATION\<close>: \<^verbatim>\<open>src/config.py\<close>
  declares no such property, so the value is a parameter and \<open>None\<close> is the failing
  attribute lookup. \<open>transcribe_window i\<close> is the outcome of
  \<^verbatim>\<open>model.transcribe(segment_audio, ...)\<close> in round \<open>i\<close> of the window loop, on the
  slice that \<open>segment_audio\<close> gives for that round. \<open>transcribe_file k\<close> is the outcome
  of a whole-file \<^verbatim>\<open>model.transcribe(file_path, ...)\<close> issued after \<open>k\<close> earlier
  whole-file calls.\<close>

record env =
  load_model_ok :: bool
  load_audio :: "nat option"
  detect_language :: "string option"
  segment_duration :: "rat option"
  transcribe_window :: "nat \<Rightarrow> window_result option"
  transcribe_file :: "nat \<Rightarrow> result option"
  write_ok :: bool

datatype status = Queued | Processing | Completed | Failed

record event =
  ev_task :: string
  ev_status :: status
  ev_position :: "nat option"

text \<open>The queue entry
  \<^verbatim>\<open>(file_path, output_path, model_name, language, gpu_ids, task_id)\<close>.\<close>

record task =
  file_path :: string
  output_path :: string
  model_name :: string
  language :: "string option"
  gpu_ids :: "nat list"
  task_id :: string

record task_info =
  ti_file :: string
  ti_gpu_ids :: "nat list"

text \<open>The global variables of the module and the logs of the observable effects:
  the \<^verbatim>\<open>task_update\<close> events emitted, the arguments of the calls of
  \<^verbatim>\<open>release_model_memory\<close>, the whole-file calls of \<^verbatim>\<open>model.transcribe\<close> (file and
  language argument) and the output files written.\<close>

record world =
  events :: "event list"
  releases :: "nat list list"
  file_calls :: "(string \<times> string option) list"
  files :: "string \<rightharpoonup> pystr"
  active_transcriptions :: "string \<rightharpoonup> task_info"
  transcription_start_times :: "string set"
  transcription_timers :: "string set"
  transcription_queue :: "task list"

definition emit :: "string \<Rightarrow> status \<Rightarrow> nat option \<Rightarrow> world \<Rightarrow> world" where
  "emit tid st pos w = w\<lparr>events := events w @ [\<lparr>ev_task = tid, ev_status = st, ev_position = pos\<rparr>]\<rparr>"

text \<open>\<^verbatim>\<open>release_model_memory(gpu_ids)\<close>: its body is one \<^verbatim>\<open>try\<close> whose handler only
  logs, so the call always returns.\<close>

definition release_model_memory :: "nat list \<Rightarrow> world \<Rightarrow> world" where
  "release_model_memory ids w = w\<lparr>releases := releases w @ [ids]\<rparr>"

text \<open>A whole-file call \<^verbatim>\<open>model.transcribe(file_path, language=...)\<close>.\<close>

definition call_transcribe_file ::
  "env \<Rightarrow> string \<Rightarrow> string option \<Rightarrow> world \<Rightarrow> result option \<times> world" where
  "call_transcribe_file e path lang w =
     (transcribe_file e (length (file_calls w)), w\<lparr>file_calls := file_calls w @ [(path, lang)]\<rparr>)"

subsection \<open>\<^verbatim>\<open>transcribe_with_progress\<close> (lines 253--393)\<close>

text \<open>The loop over the windows: the first window whose transcription raises ends it;
  the progress events of the windows before stay emitted.\<close>

fun run_windows ::
  "env \<Rightarrow> string \<Rightarrow> nat list \<Rightarrow> window_result list \<Rightarrow> world \<Rightarrow> window_result list option \<times> world"
  where
  "run_windows e tid [] segments w = (Some segments, w)"
| "run_windows e tid (i # is) segments w =
     (case transcribe_window e i of
        None \<Rightarrow> (None, w)
      | Some segment_result \<Rightarrow>
          run_windows e tid is (segments @ [segment_result]) (emit tid Processing None w))"

text \<open>The body of the \<^verbatim>\<open>try\<close>: \<open>None\<close> when it raises. Dividing by a zero
  \<^verbatim>\<open>segment_duration\<close> raises \<^verbatim>\<open>ZeroDivisionError\<close>.\<close>

definition segmented ::
  "env \<Rightarrow> string option \<Rightarrow> string \<Rightarrow> world \<Rightarrow> result option \<times> world" where
  "segmented e lang tid w =
     (case load_audio e of
        None \<Rightarrow> (None, w)
      | Some samples \<Rightarrow>
          (let total_duration = of_nat samples / SAMPLE_RATE in
           case segment_duration e of
             None \<Rightarrow> (None, w)
           | Some W \<Rightarrow>
               if W = 0 then (None, w)
               else
                 (case run_windows e tid [0..<total_segments total_duration W] [] w of
                    (None, w') \<Rightarrow> (None, w')
                  | (Some segments, w') \<Rightarrow> (Some (final_result W lang segments), w'))))"

text \<open>The handler of the \<^verbatim>\<open>try\<close> returns the whole-file transcription; when that
  raises, the exception leaves the function (\<open>None\<close>).\<close>

definition transcribe_with_progress ::
  "env \<Rightarrow> string \<Rightarrow> string option \<Rightarrow> string \<Rightarrow> world \<Rightarrow> result option \<times> world" where
  "transcribe_with_progress e path lang tid w =
     (case segmented e lang tid w of
        (Some r, w') \<Rightarrow> (Some r, w')
      | (None, w') \<Rightarrow> call_transcribe_file e path lang w')"

subsection \<open>\<^verbatim>\<open>transcribe_with_interrupt\<close> (lines 395--453)\<close>

text \<open>The language after the detection step: \<open>None\<close> when the step raises.\<close>

definition resolve_language :: "env \<Rightarrow> string option \<Rightarrow> string option" where
  "resolve_language e lang =
     (if lang = Some ''auto'' \<or> lang = None then
        (case load_audio e of None \<Rightarrow> None | Some samples \<Rightarrow> detect_language e)
      else lang)"

text \<open>\<^verbatim>\<open>language if language != "auto" else None\<close>\<close>

definition lang_arg :: "string option \<Rightarrow> string option" where
  "lang_arg lang = (if lang \<noteq> Some ''auto'' then lang else None)"

text \<open>The result is \<open>None\<close> for the Python value \<^verbatim>\<open>None\<close>; the function never raises.\<close>

definition transcribe_with_interrupt ::
  "env \<Rightarrow> string \<Rightarrow> string option \<Rightarrow> string \<Rightarrow> world \<Rightarrow> result option \<times> world" where
  "transcribe_with_interrupt e path lang tid w =
     (case resolve_language e lang of
        None \<Rightarrow> call_transcribe_file e path (lang_arg lang) w
      | Some l \<Rightarrow>
          (case transcribe_with_progress e path (lang_arg (Some l)) tid
                  (emit tid Processing None w) of
             (Some r, w') \<Rightarrow> (Some r, emit tid Processing None w')
           | (None, w') \<Rightarrow> call_transcribe_file e path (lang_arg (Some l)) w'))"

subsection \<open>\<^verbatim>\<open>transcribe_audio_process\<close> (lines 459--580)\<close>

datatype outcome = Returned "pystr option" | Raised

text \<open>The \<^verbatim>\<open>try\<close> block with its handler.\<close>

definition process_body :: "env \<Rightarrow> task \<Rightarrow> world \<Rightarrow> outcome \<times> world" where
  "process_body e t w =
     (let w1 = emit (task_id t) Processing None w in
      if \<not> load_model_ok e then (Raised, emit (task_id t) Failed None w1)
      else
        (case transcribe_with_interrupt e (file_path t) (language t) (task_id t) w1 of
           (None, w2) \<Rightarrow> (Returned None, w2)
         | (Some r, w2) \<Rightarrow>
             if \<not> write_ok e then (Raised, emit (task_id t) Failed None w2)
             else
               (Returned (Some (res_text r)),
                emit (task_id t) Completed None
                  (w2\<lparr>files := (files w2)(output_path t \<mapsto> res_text r)\<rparr>))))"

text \<open>The \<^verbatim>\<open>finally\<close> block. \<open>ids\<close> is the local \<^verbatim>\<open>gpu_ids\<close>, overwritten from the
  registry entry when the task is registered.\<close>

definition cleanup :: "nat list \<Rightarrow> string \<Rightarrow> world \<Rightarrow> world" where
  "cleanup ids tid w =
     (let (ids', w1) =
        (case active_transcriptions w tid of
           None \<Rightarrow> (ids, w)
         | Some task_info \<Rightarrow>
             (ti_gpu_ids task_info,
              (if ti_gpu_ids task_info \<noteq> [] then release_model_memory (ti_gpu_ids task_info) w
               else w)
              \<lparr>active_transcriptions := (active_transcriptions w)(tid := None)\<rparr>));
          w2 = w1\<lparr>transcription_start_times := transcription_start_times w1 - {tid},
                  transcription_timers := transcription_timers w1 - {tid}\<rparr>
      in if ids' \<noteq> [] then release_model_memory ids' w2 else w2)"

definition transcribe_audio_process :: "env \<Rightarrow> task \<Rightarrow> world \<Rightarrow> outcome \<times> world" where
  "transcribe_audio_process e t w =
     (case process_body e t w of (out, w') \<Rightarrow> (out, cleanup (gpu_ids t) (task_id t) w'))"

subsection \<open>\<^verbatim>\<open>transcription_worker\<close> (lines 583--626) and \<^verbatim>\<open>add_to_queue\<close> (lines 774--805)\<close>

text \<open>\<^verbatim>\<open>with queue_lock: task = transcription_queue.pop(0)\<close>, or no task.\<close>

definition worker_dequeue :: "world \<Rightarrow> task option \<times> world" where
  "worker_dequeue w =
     (case transcription_queue w of
        [] \<Rightarrow> (None, w)
      | t # q \<Rightarrow> (Some t, w\<lparr>transcription_queue := q\<rparr>))"

text \<open>\<^verbatim>\<open>os.path.basename\<close> on a POSIX path: what follows the last slash.\<close>

definition basename :: "string \<Rightarrow> string" where
  "basename p = rev (takeWhile (\<lambda>c. c \<noteq> CHR ''/'') (rev p))"

text \<open>The registration of the task before it is processed (lines 596--602).\<close>

definition worker_register :: "task \<Rightarrow> world \<Rightarrow> world" where
  "worker_register t w =
     w\<lparr>transcription_start_times := insert (task_id t) (transcription_start_times w),
       active_transcriptions :=
         (active_transcriptions w)
           (task_id t \<mapsto> \<lparr>ti_file = basename (file_path t), ti_gpu_ids = gpu_ids t\<rparr>)\<rparr>"

text \<open>The call of \<^verbatim>\<open>transcribe_audio_process\<close> inside the worker's \<^verbatim>\<open>try\<close>.\<close>

definition worker_run :: "env \<Rightarrow> task \<Rightarrow> world \<Rightarrow> world" where
  "worker_run e t w =
     (case transcribe_audio_process e t w of
        (Raised, w') \<Rightarrow>
          w'\<lparr>transcription_start_times := transcription_start_times w' - {task_id t}\<rparr>
      | (Returned v, w') \<Rightarrow> w')"

text \<open>\<^verbatim>\<open>with queue_lock:\<close> after the task: announce the head of the queue.\<close>

definition worker_notify_next :: "world \<Rightarrow> world" where
  "worker_notify_next w =
     (case transcription_queue w of
        [] \<Rightarrow> w
      | next_task # q \<Rightarrow> emit (task_id next_task) Processing None w)"

text \<open>One round of the \<^verbatim>\<open>while True\<close> loop.\<close>

definition worker_iteration :: "env \<Rightarrow> world \<Rightarrow> world" where
  "worker_iteration e w =
     (case worker_dequeue w of
        (None, w') \<Rightarrow> w'
      | (Some t, w') \<Rightarrow> worker_notify_next (worker_run e t (worker_register t w')))"

text \<open>The block under \<^verbatim>\<open>queue_lock\<close> in \<^verbatim>\<open>add_to_queue\<close> for one file.\<close>

definition enqueue_task :: "task \<Rightarrow> world \<Rightarrow> world" where
  "enqueue_task t w =
     (let is_first_task = (length (transcription_queue w) = 0);
          w1 = w\<lparr>transcription_queue := transcription_queue w @ [t]\<rparr>;
          w2 = emit (task_id t) Queued (Some (length (transcription_queue w1))) w1
      in if is_first_task then emit (task_id t) Processing None w2 else w2)"

text \<open>The loop over the requested files: a file that does not exist is skipped.\<close>

fun add_to_queue :: "(string \<Rightarrow> bool) \<Rightarrow> task list \<Rightarrow> world \<Rightarrow> world" where
  "add_to_queue exists [] w = w"
| "add_to_queue exists (t # ts) w =
     (if \<not> exists (file_path t) then add_to_queue exists ts w
      else add_to_queue exists ts (enqueue_task t w))"

text \<open>The state of a freshly started process.\<close>

definition initial_world :: world where
  "initial_world =
     \<lparr>events = [], releases = [], file_calls = [], files = Map.empty,
      active_transcriptions = Map.empty, transcription_start_times = {},
      transcription_timers = {}, transcription_queue = []\<rparr>"

subsection \<open>Auxiliary notions for the statements\<close>

text \<open>The sub-segments window \<open>i\<close> contributes to \<^verbatim>\<open>all_segments\<close>, in closed form.\<close>

definition window_segments :: "rat \<Rightarrow> nat \<Rightarrow> window_result \<Rightarrow> seg list" where
  "window_segments W i r =
     (case wr_segments r of
        None \<Rightarrow> []
      | Some ss \<Rightarrow>
          map (adjust (base_time W i))
            (filter (\<lambda>s. \<not> (i > 0 \<and> seg_start s + base_time W i < of_nat i * W - 1)) ss))"

text \<open>A sub-segment, timed relative to the audio of window \<open>i\<close>, lies within the span
  of that window.\<close>

definition within_window :: "rat \<Rightarrow> rat \<Rightarrow> nat \<Rightarrow> seg \<Rightarrow> bool" where
  "within_window D W i s \<longleftrightarrow>
     0 \<le> seg_start s \<and> seg_start s \<le> seg_end s \<and> seg_end s \<le> end_time D W i - start_time W i"

text \<open>The text of a window as the merge reads it: stripped, empty when the key is absent.\<close>

definition window_text :: "window_result \<Rightarrow> pystr" where
  "window_text r = (case wr_text r of None \<Rightarrow> [] | Some t \<Rightarrow> strip t)"

text \<open>The text merged so far when the merge of \<open>rs\<close> reaches window \<open>i\<close>.\<close>

definition merged_before :: "rat \<Rightarrow> window_result list \<Rightarrow> nat \<Rightarrow> pystr" where
  "merged_before W rs i = fst (merge_loop W (length rs) 0 (take i rs) ([], []))"

text \<open>The first text followed by every later non-empty text, each after one space.\<close>

fun plain_concat :: "pystr list \<Rightarrow> pystr" where
  "plain_concat [] = []"
| "plain_concat (t # ts) = t @ concat (map (\<lambda>u. 32 # u) (filter (\<lambda>u. u \<noteq> []) ts))"

text \<open>A window result that carries only a text.\<close>

definition text_only :: "pystr \<Rightarrow> window_result" where
  "text_only t = \<lparr>wr_text = Some t, wr_segments = None, wr_language = None\<rparr>"

text \<open>The events a step from \<open>w\<close> to \<open>w'\<close> has emitted, and the steps that only add
  events satisfying \<open>P\<close> to the log.\<close>

definition new_events :: "world \<Rightarrow> world \<Rightarrow> event list" where
  "new_events w w' = drop (length (events w)) (events w')"

definition extends_events :: "(event \<Rightarrow> bool) \<Rightarrow> world \<Rightarrow> world \<Rightarrow> bool" where
  "extends_events P w w' \<longleftrightarrow>
     take (length (events w)) (events w') = events w \<and> list_all P (new_events w w')"

text \<open>A step that leaves the release log, the output files, the registries and the queue
  as they are.\<close>

definition same_resources :: "world \<Rightarrow> world \<Rightarrow> bool" where
  "same_resources w w' \<longleftrightarrow>
     releases w' = releases w \<and> files w' = files w \<and>
     active_transcriptions w' = active_transcriptions w \<and>
     transcription_start_times w' = transcription_start_times w \<and>
     transcription_timers w' = transcription_timers w \<and>
     transcription_queue w' = transcription_queue w"

text \<open>The body of the \<^verbatim>\<open>try\<close> of \<^verbatim>\<open>transcribe_with_progress\<close> raises: the audio cannot
  be loaded, the window length is missing or zero, or the transcription of a window raises.\<close>

definition segmented_raises :: "env \<Rightarrow> bool" where
  "segmented_raises e =
     (case load_audio e of
        None \<Rightarrow> True
      | Some samples \<Rightarrow>
          (case segment_duration e of
             None \<Rightarrow> True
           | Some W \<Rightarrow>
               W = 0 \<or>
               list_ex (\<lambda>i. transcribe_window e i = None)
                 [0..<total_segments (of_nat samples / SAMPLE_RATE) W]))"

text \<open>A progress event of a task; an event of a task.\<close>

definition progress_of :: "string \<Rightarrow> event \<Rightarrow> bool" where
  "progress_of tid ev \<longleftrightarrow> ev_task ev = tid \<and> ev_status ev = Processing"

definition of_task :: "string \<Rightarrow> event \<Rightarrow> bool" where
  "of_task tid ev \<longleftrightarrow> ev_task ev = tid"

section \<open>Properties\<close>

subsection \<open>Window planning\<close>

lemma total_segments_bounds:
  assumes "0 < D" "0 < W" "i < total_segments D W"
  shows "of_nat i * W < D"
proof -
  have "int i < \<lceil>D / W\<rceil>" using assms(3) by (simp add: total_segments_def)
  then have "of_int (int i) < D / W" by (simp only: less_ceiling_iff)
  then have "of_nat i < D / W" by simp
  then show ?thesis using assms(2) by (simp add: pos_less_divide_eq)
qed

text \<open>The locals \<^verbatim>\<open>start_time\<close> and \<^verbatim>\<open>end_time\<close> of round \<open>i\<close>.\<close>

lemma window_times:
  assumes "0 < D" and "0 < W" and i: "i < total_segments D W"
  shows "start_time W i = of_nat i * W - (if i > 0 then 2 else 0)"
    and "end_time D W i = min (of_nat (i + 1) * W) D"
    and "start_time W i < end_time D W i"
    and "0 < end_time D W i" and "end_time D W i \<le> D"
    and "2 \<le> W \<Longrightarrow> 0 \<le> start_time W i"
    and "2 \<le> W \<Longrightarrow> start_time W i = max 0 (of_nat i * W - (if i > 0 then 2 else 0))"
proof -
  have lt: "of_nat i * W < D" using total_segments_bounds[OF assms] .
  have nonneg: "0 \<le> of_nat i * W" using assms(2) by simp
  show "start_time W i = of_nat i * W - (if i > 0 then 2 else 0)"
    by (simp add: start_time_def overlap_duration_def)
  show "end_time D W i = min (of_nat (i + 1) * W) D"
    by (simp add: end_time_def)
  have s_le: "start_time W i \<le> of_nat i * W"
    by (simp add: start_time_def overlap_duration_def)
  have "of_nat i * W < of_nat (i + 1) * W"
    using assms(2) by (simp add: algebra_simps)
  with lt have "of_nat i * W < end_time D W i"
    by (simp add: end_time_def)
  with s_le show "start_time W i < end_time D W i" by simp
  show "0 < end_time D W i"
    using assms nonneg by (simp add: end_time_def algebra_simps add_pos_nonneg)
  show "end_time D W i \<le> D"
    by (simp add: end_time_def)
  have ge: "2 \<le> of_nat i * W" if "2 \<le> W" "i > 0"
  proof -
    from that(2) have "(1::rat) \<le> of_nat i" by simp
    then have "1 * 2 \<le> of_nat i * W" using that(1) by (intro mult_mono) simp_all
    then show ?thesis by simp
  qed
  show "0 \<le> start_time W i" if "2 \<le> W"
    using ge[OF that] by (cases "i > 0") (simp_all add: start_time_def overlap_duration_def)
  show "start_time W i = max 0 (of_nat i * W - (if i > 0 then 2 else 0))" if "2 \<le> W"
    using ge[OF that] by (cases "i > 0") (simp_all add: start_time_def overlap_duration_def)
qed

lemma py_int_nonneg: "0 \<le> x \<Longrightarrow> py_int x = \<lfloor>x\<rfloor> \<and> 0 \<le> py_int x"
  by (simp add: py_int_def)

text \<open>With a window length of at least the overlap, the slice is the span between the two
  sample indices: no bound is negative and none exceeds the length of the audio.\<close>

lemma segment_audio_span:
  assumes "audio_data \<noteq> []" and "2 \<le> W"
    and "i < total_segments (of_nat (length audio_data) / SAMPLE_RATE) W"
  shows "0 \<le> start_sample W i \<and>
         start_sample W i \<le> end_sample (of_nat (length audio_data) / SAMPLE_RATE) W i \<and>
         end_sample (of_nat (length audio_data) / SAMPLE_RATE) W i \<le> int (length audio_data) \<and>
         segment_audio audio_data W i =
           take (nat (end_sample (of_nat (length audio_data) / SAMPLE_RATE) W i) -
                 nat (start_sample W i))
             (drop (nat (start_sample W i)) audio_data)"
proof -
  let ?D = "of_nat (length audio_data) / SAMPLE_RATE"
  have D: "0 < ?D" using assms(1) by (simp add: SAMPLE_RATE_def)
  have W: "0 < W" using assms(2) by simp
  note wt = window_times[OF D W assms(3)]
  have s0: "0 \<le> start_time W i * SAMPLE_RATE"
    using wt(6)[OF assms(2)] by (simp add: SAMPLE_RATE_def)
  have e0: "0 \<le> end_time ?D W i * SAMPLE_RATE"
    using wt(4) by (simp add: SAMPLE_RATE_def)
  have se: "start_time W i * SAMPLE_RATE \<le> end_time ?D W i * SAMPLE_RATE"
    using wt(3) by (simp add: SAMPLE_RATE_def)
  have "end_time ?D W i * SAMPLE_RATE \<le> ?D * SAMPLE_RATE"
    using wt(5) by (simp add: SAMPLE_RATE_def)
  then have el: "end_time ?D W i * SAMPLE_RATE \<le> of_int (int (length audio_data))"
    by (simp add: SAMPLE_RATE_def)
  have s: "start_sample W i = \<lfloor>start_time W i * SAMPLE_RATE\<rfloor>" "0 \<le> start_sample W i"
    using py_int_nonneg[OF s0] s0 by (simp_all add: start_sample_def)
  have e: "end_sample ?D W i = \<lfloor>end_time ?D W i * SAMPLE_RATE\<rfloor>"
    using py_int_nonneg[OF e0] e0 by (simp add: end_sample_def)
  have le: "start_sample W i \<le> end_sample ?D W i"
    unfolding s(1) e using se by (rule floor_mono)
  have "\<lfloor>end_time ?D W i * SAMPLE_RATE\<rfloor> \<le> \<lfloor>(of_int (int (length audio_data)) :: rat)\<rfloor>"
    using el by (rule floor_mono)
  then have len: "end_sample ?D W i \<le> int (length audio_data)"
    unfolding e by simp
  have "segment_audio audio_data W i =
      take (nat (end_sample ?D W i) - nat (start_sample W i)) (drop (nat (start_sample W i)) audio_data)"
    using s(2) le len
    by (simp add: segment_audio_def py_slice_def slice_index_def Let_def min_def)
  with s(2) le len show ?thesis by simp
qed


subsection \<open>Merged sub-segments\<close>

lemma add_segments_eq:
  "add_segments W i ss acc =
     acc @ map (adjust (base_time W i))
             (filter (\<lambda>s. \<not> (i > 0 \<and> seg_start s + base_time W i < of_nat i * W - 1)) ss)"
  by (induction ss arbitrary: acc) (auto simp: adjust_def overlap_duration_def Let_def)

lemma merge_segments_eq:
  "merge_segments W i r acc = acc @ window_segments W i r"
  by (simp add: merge_segments_def window_segments_def add_segments_eq split: option.splits)

lemma snd_merge_loop:
  "snd (merge_loop W n i rs (c, acc)) =
     acc @ concat (map (\<lambda>(k, r). window_segments W k r) (enumerate i rs))"
  by (induction rs arbitrary: i c acc) (simp_all add: merge_segments_eq)

text \<open>
  Claim C4, as the code has it. The merged sub-segment list is the concatenation, window by
  window, of the window's sub-segments with start and end shifted by the start of the
  window's audio, \<open>i * W - 2 * [i > 0]\<close> (the overlap already subtracted); a sub-segment is
  dropped exactly when \<open>i > 0\<close> and its shifted start is less than \<open>i * W - O / 2\<close>.
  Sub-segments of window 0 are never dropped.
\<close>

theorem final_segments_spec:
  "final_segments W rs =
     concat (map (\<lambda>(i, r).
        case wr_segments r of
          None \<Rightarrow> []
        | Some ss \<Rightarrow>
            map (\<lambda>s. s\<lparr>seg_start := seg_start s + (of_nat i * W - (if i > 0 then 2 else 0)),
                       seg_end := seg_end s + (of_nat i * W - (if i > 0 then 2 else 0))\<rparr>)
              (filter (\<lambda>s. \<not> (i > 0 \<and>
                   seg_start s + (of_nat i * W - (if i > 0 then 2 else 0)) < of_nat i * W - 2 / 2)) ss))
       (enumerate 0 rs))"
proof -
  have b: "base_time W i = of_nat i * W - (if i > 0 then 2 else 0)" for i
    by (simp add: base_time_def overlap_duration_def)
  have "window_segments W i r =
      (case wr_segments r of
          None \<Rightarrow> []
        | Some ss \<Rightarrow>
            map (\<lambda>s. s\<lparr>seg_start := seg_start s + (of_nat i * W - (if i > 0 then 2 else 0)),
                       seg_end := seg_end s + (of_nat i * W - (if i > 0 then 2 else 0))\<rparr>)
              (filter (\<lambda>s. \<not> (i > 0 \<and>
                   seg_start s + (of_nat i * W - (if i > 0 then 2 else 0)) < of_nat i * W - 2 / 2)) ss))" for i r
    unfolding window_segments_def b[symmetric] by (simp add: adjust_def fun_eq_iff split: option.splits)
  then show ?thesis
    by (simp add: final_segments_def merge_results_def snd_merge_loop)
qed

theorem final_segments_spec_witness:
  "final_segments 30
     [\<lparr>wr_text = None, wr_segments = Some [\<lparr>seg_start = 0, seg_end = 4, seg_text = []\<rparr>],
        wr_language = None\<rparr>,
      \<lparr>wr_text = None,
        wr_segments = Some [\<lparr>seg_start = 1 / 2, seg_end = 1, seg_text = []\<rparr>,
                            \<lparr>seg_start = 5, seg_end = 6, seg_text = []\<rparr>],
        wr_language = None\<rparr>]
   = [\<lparr>seg_start = 0, seg_end = 4, seg_text = []\<rparr>,
      \<lparr>seg_start = 33, seg_end = 34, seg_text = []\<rparr>]"
  by (simp add: final_segments_spec enumerate_simps)

text \<open>A sub-segment of window 1 with raw times 5 and 6, \<open>W = 30\<close>: the merged times are 33
  and 34, not \<open>5 + 1 * W\<close> and \<open>6 + 1 * W\<close>.\<close>

theorem shift_by_naive_boundary_counterexample:
  "final_segments 30
     [\<lparr>wr_text = None, wr_segments = Some [], wr_language = None\<rparr>,
      \<lparr>wr_text = None, wr_segments = Some [\<lparr>seg_start = 5, seg_end = 6, seg_text = []\<rparr>],
        wr_language = None\<rparr>]
   = [\<lparr>seg_start = 33, seg_end = 34, seg_text = []\<rparr>] \<and>
   (33::rat) \<noteq> 5 + of_nat 1 * 30 \<and> (34::rat) \<noteq> 6 + of_nat 1 * 30"
  by (simp add: final_segments_def merge_results_def merge_segments_def merge_text_def
      adjust_def base_time_def overlap_duration_def)

lemma seg_start_adjust [simp]: "seg_start (adjust b s) = seg_start s + b"
  by (simp add: adjust_def)

lemma sorted_window_segments:
  assumes "\<And>ss. wr_segments r = Some ss \<Longrightarrow> sorted (map seg_start ss)"
  shows "sorted (map seg_start (window_segments W i r))"
proof (cases "wr_segments r")
  case None
  then show ?thesis by (simp add: window_segments_def)
next
  case (Some ss)
  have "sorted (map seg_start ss)" using assms Some by simp
  then have "sorted (map seg_start (filter P ss))" for P
    by (induction ss) auto
  then have "sorted (map (\<lambda>s. seg_start s + base_time W i) (filter P ss))" for P
    by (simp add: sorted_wrt_map sorted_map)
  then show ?thesis using Some by (simp add: window_segments_def comp_def)
qed

lemma window_segments_lower:
  assumes "0 < i" "x \<in> set (window_segments W i r)"
  shows "of_nat i * W - 1 \<le> seg_start x"
  using assms by (auto simp: window_segments_def split: option.splits)

lemma later_windows_lower:
  assumes "0 \<le> W" "0 < i" "x \<in> set (concat (map (\<lambda>(k, r). window_segments W k r) (enumerate i rs)))"
  shows "of_nat i * W - 1 \<le> seg_start x"
  using assms(2,3)
proof (induction rs arbitrary: i)
  case Nil
  then show ?case by simp
next
  case (Cons r rs)
  from Cons.prems(2) consider
      "x \<in> set (window_segments W i r)"
    | "x \<in> set (concat (map (\<lambda>(k, r). window_segments W k r) (enumerate (Suc i) rs)))"
    by auto
  then show ?case
  proof cases
    case 1
    then show ?thesis using Cons.prems(1) by (rule window_segments_lower[rotated])
  next
    case 2
    then have "of_nat (Suc i) * W - 1 \<le> seg_start x" by (intro Cons.IH) simp_all
    moreover have "of_nat i * W \<le> of_nat (Suc i) * W" using assms(1) by (simp add: algebra_simps)
    ultimately show ?thesis by linarith
  qed
qed

lemma window_segments_upper:
  assumes "x \<in> set (window_segments W i r)"
    and "\<And>ss s. wr_segments r = Some ss \<Longrightarrow> s \<in> set ss \<Longrightarrow> seg_start s + base_time W i \<le> B"
  shows "seg_start x \<le> B"
proof (cases "wr_segments r")
  case None
  then show ?thesis using assms(1) by (simp add: window_segments_def)
next
  case (Some ss)
  with assms(1) obtain s where "s \<in> set ss" "x = adjust (base_time W i) s"
    by (auto simp: window_segments_def)
  then show ?thesis using assms(2)[OF Some] by simp
qed

lemma sorted_blocks:
  assumes W: "0 \<le> W"
    and srt: "\<And>r ss. r \<in> set rs \<Longrightarrow> wr_segments r = Some ss \<Longrightarrow> sorted (map seg_start ss)"
    and bnd: "\<And>k ss s. Suc k < length rs \<Longrightarrow> wr_segments (rs ! k) = Some ss \<Longrightarrow> s \<in> set ss \<Longrightarrow>
                 seg_start s + base_time W (i + k) \<le> of_nat (Suc (i + k)) * W - 1"
  shows "sorted (map seg_start (concat (map (\<lambda>(k, r). window_segments W k r) (enumerate i rs))))"
  using srt bnd
proof (induction rs arbitrary: i)
  case Nil
  then show ?case by simp
next
  case (Cons r rs)
  have s1: "sorted (map seg_start (window_segments W i r))"
    by (rule sorted_window_segments) (rule Cons.prems(1), simp_all)
  have s2: "sorted (map seg_start (concat (map (\<lambda>(k, r). window_segments W k r) (enumerate (Suc i) rs))))"
  proof (rule Cons.IH)
    fix r' ss assume "r' \<in> set rs" "wr_segments r' = Some ss"
    then show "sorted (map seg_start ss)" using Cons.prems(1)[of r' ss] by simp
  next
    fix k ss s assume "Suc k < length rs" "wr_segments (rs ! k) = Some ss" "s \<in> set ss"
    then show "seg_start s + base_time W (Suc i + k) \<le> of_nat (Suc (Suc i + k)) * W - 1"
      using Cons.prems(2)[of "Suc k" ss s] by simp
  qed
  have cross: "seg_start x \<le> seg_start y"
    if x: "x \<in> set (window_segments W i r)"
    and y: "y \<in> set (concat (map (\<lambda>(k, r). window_segments W k r) (enumerate (Suc i) rs)))" for x y
  proof -
    from y have ne: "rs \<noteq> []" by auto
    have "seg_start x \<le> of_nat (Suc i) * W - 1"
    proof (rule window_segments_upper[OF x])
      fix ss s assume "wr_segments r = Some ss" "s \<in> set ss"
      then show "seg_start s + base_time W i \<le> of_nat (Suc i) * W - 1"
        using Cons.prems(2)[of 0 ss s] ne by simp
    qed
    moreover have "of_nat (Suc i) * W - 1 \<le> seg_start y"
      by (rule later_windows_lower[OF W _ y]) simp
    ultimately show ?thesis by linarith
  qed
  have "\<forall>a \<in> set (map seg_start (window_segments W i r)).
          \<forall>b \<in> set (map seg_start (concat (map (\<lambda>(k, r). window_segments W k r) (enumerate (Suc i) rs)))).
            a \<le> b"
    using cross by (simp del: set_concat)
  with s1 s2 show ?case
    by (simp add: sorted_append del: set_concat set_map)
qed

text \<open>
  Claim C5, as the code has it. When the sub-segments of every window are ordered by start
  time and no sub-segment of a window that has a successor starts, after the shift, later than
  \<open>(i + 1) * W - O / 2\<close> (the threshold from which the next window's sub-segments are
  kept), the merged list has non-decreasing start times.
\<close>

theorem merged_starts_sorted:
  assumes "0 < W"
    and "\<forall>r \<in> set rs. \<forall>ss. wr_segments r = Some ss \<longrightarrow> sorted (map seg_start ss)"
    and "\<forall>i ss. Suc i < length rs \<and> wr_segments (rs ! i) = Some ss \<longrightarrow>
           (\<forall>s \<in> set ss. seg_start s + start_time W i \<le> of_nat (i + 1) * W - overlap_duration / 2)"
  shows "sorted (map seg_start (final_segments W rs))"
proof -
  have st: "start_time W i = base_time W i" for i
    by (simp add: start_time_def base_time_def)
  have "sorted (map seg_start (concat (map (\<lambda>(k, r). window_segments W k r) (enumerate 0 rs))))"
  proof (rule sorted_blocks)
    show "0 \<le> W" using assms(1) by simp
  next
    fix r ss assume "r \<in> set rs" "wr_segments r = Some ss"
    then show "sorted (map seg_start ss)" using assms(2) by blast
  next
    fix k ss s assume "Suc k < length rs" "wr_segments (rs ! k) = Some ss" "s \<in> set ss"
    then have "seg_start s + start_time W k \<le> of_nat (k + 1) * W - overlap_duration / 2"
      using assms(3) by blast
    then show "seg_start s + base_time W (0 + k) \<le> of_nat (Suc (0 + k)) * W - 1"
      by (simp add: st overlap_duration_def)
  qed
  then show ?thesis
    by (simp add: final_segments_def merge_results_def snd_merge_loop)
qed

theorem merged_starts_sorted_witness:
  "(0::rat) < 30 \<and>
   map seg_start (final_segments 30
     [\<lparr>wr_text = None, wr_segments = Some [\<lparr>seg_start = 0, seg_end = 5, seg_text = []\<rparr>,
                                            \<lparr>seg_start = 10, seg_end = 29, seg_text = []\<rparr>], wr_language = None\<rparr>,
      \<lparr>wr_text = None, wr_segments = Some [\<lparr>seg_start = 1 / 2, seg_end = 1, seg_text = []\<rparr>,
                                            \<lparr>seg_start = 3, seg_end = 10, seg_text = []\<rparr>], wr_language = None\<rparr>,
      \<lparr>wr_text = None, wr_segments = Some [\<lparr>seg_start = 2, seg_end = 5, seg_text = []\<rparr>], wr_language = None\<rparr>])
     = [0, 10, 31, 60] \<and>
   sorted (map seg_start (final_segments 30
     [\<lparr>wr_text = None, wr_segments = Some [\<lparr>seg_start = 0, seg_end = 5, seg_text = []\<rparr>,
                                            \<lparr>seg_start = 10, seg_end = 29, seg_text = []\<rparr>], wr_language = None\<rparr>,
      \<lparr>wr_text = None, wr_segments = Some [\<lparr>seg_start = 1 / 2, seg_end = 1, seg_text = []\<rparr>,
                                            \<lparr>seg_start = 3, seg_end = 10, seg_text = []\<rparr>], wr_language = None\<rparr>,
      \<lparr>wr_text = None, wr_segments = Some [\<lparr>seg_start = 2, seg_end = 5, seg_text = []\<rparr>], wr_language = None\<rparr>]))"
  (is "_ \<and> map seg_start (final_segments 30 ?rs) = _ \<and> _")
proof -
  have W: "(0::rat) < 30" by simp
  have h1: "\<forall>r \<in> set ?rs. \<forall>ss. wr_segments r = Some ss \<longrightarrow> sorted (map seg_start ss)"
    by auto
  have h2: "\<forall>i ss. Suc i < length ?rs \<and> wr_segments (?rs ! i) = Some ss \<longrightarrow>
           (\<forall>s \<in> set ss. seg_start s + start_time 30 i \<le> of_nat (i + 1) * 30 - overlap_duration / 2)"
    by (auto simp: less_Suc_eq start_time_def overlap_duration_def)
  have v: "map seg_start (final_segments 30 ?rs) = [0, 10, 31, 60]"
    by (simp add: final_segments_def merge_results_def merge_segments_def merge_text_def
      adjust_def base_time_def overlap_duration_def)
  from merged_starts_sorted [OF W h1 h2] v W show ?thesis by simp
qed

text \<open>Lying within the window's span is not enough: with \<open>D = 75\<close>, \<open>W = 30\<close> a sub-segment
  of window 0 starting at 29.5 is followed by one of window 1 that starts at 29.\<close>

theorem merged_starts_decrease_counterexample:
  "total_segments 75 30 = 3 \<and>
   sorted (map seg_start [\<lparr>seg_start = 59 / 2, seg_end = 30, seg_text = []\<rparr>]) \<and>
   sorted (map seg_start [\<lparr>seg_start = 1, seg_end = 2, seg_text = []\<rparr>]) \<and>
   within_window 75 30 0 \<lparr>seg_start = 59 / 2, seg_end = 30, seg_text = []\<rparr> \<and>
   within_window 75 30 1 \<lparr>seg_start = 1, seg_end = 2, seg_text = []\<rparr> \<and>
   map seg_start (final_segments 30
     [\<lparr>wr_text = None, wr_segments = Some [\<lparr>seg_start = 59 / 2, seg_end = 30, seg_text = []\<rparr>], wr_language = None\<rparr>,
      \<lparr>wr_text = None, wr_segments = Some [\<lparr>seg_start = 1, seg_end = 2, seg_text = []\<rparr>], wr_language = None\<rparr>,
      \<lparr>wr_text = None, wr_segments = Some [], wr_language = None\<rparr>]) = [59 / 2, 29] \<and>
   \<not> sorted (map seg_start (final_segments 30
     [\<lparr>wr_text = None, wr_segments = Some [\<lparr>seg_start = 59 / 2, seg_end = 30, seg_text = []\<rparr>], wr_language = None\<rparr>,
      \<lparr>wr_text = None, wr_segments = Some [\<lparr>seg_start = 1, seg_end = 2, seg_text = []\<rparr>], wr_language = None\<rparr>,
      \<lparr>wr_text = None, wr_segments = Some [], wr_language = None\<rparr>]))"
proof -
  have t: "total_segments 75 30 = 3" by code_simp
  show ?thesis unfolding t
    by (simp add: final_segments_def merge_results_def merge_segments_def merge_text_def
      adjust_def base_time_def overlap_duration_def within_window_def start_time_def end_time_def)
qed

subsection \<open>Strings\<close>

lemma split_aux_nonempty_words:
  "w \<in> set (split_aux s cur) \<Longrightarrow> w \<noteq> []"
  by (induction s arbitrary: cur) (auto split: if_splits)

lemma split_words_nonempty: "w \<in> set (split s) \<Longrightarrow> w \<noteq> []"
  unfolding split_def by (rule split_aux_nonempty_words)

lemma split_aux_cur_nonempty:
  "cur \<noteq> [] \<Longrightarrow> split_aux s cur \<noteq> []"
  by (induction s arbitrary: cur) auto

lemma split_aux_has_word:
  "\<exists>c \<in> set s. \<not> isspace c \<Longrightarrow> split_aux s cur \<noteq> []"
  by (induction s arbitrary: cur) (auto split: if_splits simp: split_aux_cur_nonempty)

lemma strip_nonempty_has_char:
  assumes "strip s \<noteq> []"
  shows "\<exists>c \<in> set (strip s). \<not> isspace c"
proof -
  let ?t = "dropWhile isspace (rev (dropWhile isspace s))"
  from assms have ne: "?t \<noteq> []" by (simp add: strip_def)
  then have "\<not> isspace (hd ?t)" by (rule hd_dropWhile)
  moreover have "hd ?t \<in> set ?t" using ne by simp
  ultimately show ?thesis by (auto simp: strip_def)
qed

lemma split_strip_nonempty: "strip s \<noteq> [] \<Longrightarrow> split (strip s) \<noteq> []"
  unfolding split_def by (rule split_aux_has_word) (rule strip_nonempty_has_char)

lemma last_strip_not_space:
  assumes "strip s \<noteq> []"
  shows "\<not> isspace (last (strip s))"
proof -
  let ?t = "dropWhile isspace (rev (dropWhile isspace s))"
  from assms have ne: "?t \<noteq> []" by (simp add: strip_def)
  then have "\<not> isspace (hd ?t)" by (rule hd_dropWhile)
  moreover have "last (strip s) = hd ?t" using ne by (simp add: strip_def last_rev)
  ultimately show ?thesis by simp
qed

lemma join_nonempty:
  "ws \<noteq> [] \<Longrightarrow> \<forall>w \<in> set ws. w \<noteq> [] \<Longrightarrow> join ws \<noteq> []"
  by (induction ws rule: join.induct) auto

lemma scan_overlap_no_match:
  "\<forall>j \<in> set js. \<not> phrase_matches combined words j \<Longrightarrow> scan_overlap is_last words combined js = None"
  by (induction js) simp_all

text \<open>The second \<^verbatim>\<open>break\<close> of the loop is never reached on the words of a split.\<close>

lemma remaining_empty_is_last_word:
  assumes "\<forall>w \<in> set words. w \<noteq> []" "join (drop (j + 1) words) = []"
  shows "\<not> int j < int (length words) - 1"
proof
  assume "int j < int (length words) - 1"
  then have "drop (j + 1) words \<noteq> []" by simp
  moreover have "\<forall>w \<in> set (drop (j + 1) words). w \<noteq> []"
    using assms(1) by (meson in_set_dropD)
  ultimately have "join (drop (j + 1) words) \<noteq> []" by (rule join_nonempty)
  with assms(2) show False by simp
qed

text \<open>Facts for evaluating the merge on concrete texts.\<close>

lemma all_below_list_all: "(\<forall>j < n. P j) \<longleftrightarrow> list_all P [0..<n]"
  by (auto simp: list_all_iff)

lemmas string_defs = py_def strip_def split_def isspace_def tail_slice_def ends_with_space_def

lemmas merge_defs = final_text_def merged_before_def merge_results_def merge_text_def
  text_only_def window_text_def max_check_words_def phrase_matches_def add_text_def

subsection \<open>Merged text\<close>

lemma fst_merge_loop_snoc:
  "fst (merge_loop W n i (rs @ [r]) (c, a)) =
     merge_text n (i + length rs) r (fst (merge_loop W n i rs (c, a)))"
  by (induction rs arbitrary: i c a) simp_all

lemma merge_text_no_match:
  assumes "0 < i" and "wr_text r = Some t" and "strip t \<noteq> []"
    and "\<forall>j < max_check_words (int i = int n - 1) (split (strip t)).
           \<not> phrase_matches combined (split (strip t)) j"
  shows "merge_text n i r combined = add_text combined (strip t)"
proof -
  have "scan_overlap (int i = int n - 1) (split (strip t)) combined
          [0..<max_check_words (int i = int n - 1) (split (strip t))] = None"
    by (rule scan_overlap_no_match) (use assms(4) in simp)
  moreover have "split (strip t) \<noteq> []" using assms(3) by (rule split_strip_nonempty)
  ultimately show ?thesis using assms(1-3) by (simp add: merge_text_def Let_def)
qed

text \<open>
  Claim C3, as the code has it. For a window \<open>i > 0\<close> with a non-empty stripped text of
  which no tested prefix matches the tail of the text merged so far, the whole stripped text
  is appended after one separating space (none if the merged text ends with a space). This
  holds for the final window as for every other one: \<open>n\<close>, the number of windows, is
  arbitrary. No half of the final window is discarded.
\<close>

theorem no_match_appends_whole_text:
  assumes "0 < i" and "wr_text r = Some t" and "strip t \<noteq> []"
    and "\<forall>j < max_check_words (int i = int n - 1) (split (strip t)).
           \<not> phrase_matches combined (split (strip t)) j"
  shows "merge_text n i r combined =
           (if ends_with_space combined then combined else combined @ [32]) @ strip t"
  using merge_text_no_match[OF assms] by (simp add: add_text_def)

theorem no_match_appends_whole_text_witness:
  "(0::nat) < 1 \<and> strip (py ''fine then bye now'') \<noteq> [] \<and>
   merge_text 2 1 (text_only (py ''fine then bye now'')) (py ''good day'') =
     py ''good day fine then bye now''"
proof -
  have i: "(0::nat) < 1" by simp
  have t: "wr_text (text_only (py ''fine then bye now'')) = Some (py ''fine then bye now'')"
    by (simp add: text_only_def)
  have s: "strip (py ''fine then bye now'') \<noteq> []"
    by (simp add: string_defs)
  have m: "\<forall>j < max_check_words (int 1 = int 2 - 1) (split (strip (py ''fine then bye now''))).
             \<not> phrase_matches (py ''good day'') (split (strip (py ''fine then bye now''))) j"
    unfolding all_below_list_all by (simp add: string_defs merge_defs upt_rec)
  have v: "(if ends_with_space (py ''good day'') then py ''good day'' else py ''good day'' @ [32])
             @ strip (py ''fine then bye now'') = py ''good day fine then bye now''"
    by (simp add: string_defs)
  from no_match_appends_whole_text [OF i t s m] v s show ?thesis by simp
qed

text \<open>A final window without a match: all four words are appended, not the last two.\<close>

theorem final_window_keeps_first_half_counterexample:
  "max_check_words True (split (strip (py ''fine then bye now''))) = 4 \<and>
   \<not> phrase_matches (py ''good day'') (split (strip (py ''fine then bye now''))) 0 \<and>
   \<not> phrase_matches (py ''good day'') (split (strip (py ''fine then bye now''))) 1 \<and>
   \<not> phrase_matches (py ''good day'') (split (strip (py ''fine then bye now''))) 2 \<and>
   \<not> phrase_matches (py ''good day'') (split (strip (py ''fine then bye now''))) 3 \<and>
   final_text 30 [text_only (py ''good day''), text_only (py ''fine then bye now'')] =
     py ''good day fine then bye now'' \<and>
   final_text 30 [text_only (py ''good day''), text_only (py ''fine then bye now'')] \<noteq>
     py ''good day bye now''"
  by (simp add: string_defs merge_defs upt_rec)

lemma join_drop_nonempty_iff:
  assumes "\<forall>w \<in> set ws. w \<noteq> []"
  shows "join (drop k ws) \<noteq> [] \<longleftrightarrow> k < length ws"
proof
  assume "join (drop k ws) \<noteq> []"
  then have "drop k ws \<noteq> []" by auto
  then show "k < length ws" by simp
next
  assume "k < length ws"
  then have "drop k ws \<noteq> []" by simp
  moreover have "\<forall>w \<in> set (drop k ws). w \<noteq> []"
    using assms by (meson in_set_dropD)
  ultimately show "join (drop k ws) \<noteq> []" by (rule join_nonempty)
qed

text \<open>On the words of a split the loop stops at the first tested prefix that matches and
  leaves words behind it, and appends those words; the second \<^verbatim>\<open>break\<close> is never taken.\<close>

lemma scan_overlap_find:
  assumes "\<forall>w \<in> set ws. w \<noteq> []"
  shows "scan_overlap is_last ws combined js =
     (case find (\<lambda>j. phrase_matches combined ws j \<and> Suc j < length ws) js of
        None \<Rightarrow> None
      | Some j \<Rightarrow> Some (add_text combined (join (drop (Suc j) ws))))"
proof (induction js)
  case Nil
  then show ?case by simp
next
  case (Cons j js)
  have ne: "join (drop (Suc j) ws) \<noteq> [] \<longleftrightarrow> Suc j < length ws"
    using assms by (rule join_drop_nonempty_iff)
  show ?case
  proof (cases "phrase_matches combined ws j \<and> Suc j < length ws")
    case True
    then show ?thesis using ne by (simp add: Let_def)
  next
    case False
    have eq: "scan_overlap is_last ws combined (j # js) = scan_overlap is_last ws combined js"
    proof (cases "phrase_matches combined ws j")
      case True
      with False have "\<not> Suc j < length ws" by simp
      then have "join (drop (Suc j) ws) = []" "\<not> int j < int (length ws) - 1"
        using ne by auto
      then show ?thesis using True by (simp add: Let_def)
    next
      case no: False
      then show ?thesis by simp
    qed
    have "find (\<lambda>j. phrase_matches combined ws j \<and> Suc j < length ws) (j # js) =
          find (\<lambda>j. phrase_matches combined ws j \<and> Suc j < length ws) js"
      by (simp only: find.simps False if_False)
    then show ?thesis using eq Cons.IH by (simp only:)
  qed
qed

lemma merge_text_exact:
  assumes "0 < i" and "wr_text r = Some t" and "strip t \<noteq> []"
  shows "merge_text n i r combined =
     add_text combined
       (case find (\<lambda>j. phrase_matches combined (split (strip t)) j \<and>
                         Suc j < length (split (strip t)))
               [0..<max_check_words (int i = int n - 1) (split (strip t))] of
          None \<Rightarrow> strip t
        | Some j \<Rightarrow> join (drop (Suc j) (split (strip t))))"
proof -
  have ne: "split (strip t) \<noteq> []" using assms(3) by (rule split_strip_nonempty)
  have words: "\<forall>w \<in> set (split (strip t)). w \<noteq> []" by (simp add: split_words_nonempty)
  show ?thesis
    using assms ne
    by (simp add: merge_text_def Let_def scan_overlap_find[OF words] split: option.splits)
qed

text \<open>What the final window adds is never empty.\<close>

lemma contribution_nonempty:
  assumes "strip t \<noteq> []"
  shows "(case find (\<lambda>j. P j \<and> Suc j < length (split (strip t))) js of
          None \<Rightarrow> strip t
        | Some j \<Rightarrow> join (drop (Suc j) (split (strip t)))) \<noteq> []"
proof (cases "find (\<lambda>j. P j \<and> Suc j < length (split (strip t))) js")
  case None
  then show ?thesis using assms by simp
next
  case (Some j)
  then have "Suc j < length (split (strip t))" by (auto simp: find_Some_iff)
  moreover have "\<forall>w \<in> set (split (strip t)). w \<noteq> []" by (simp add: split_words_nonempty)
  ultimately have "join (drop (Suc j) (split (strip t))) \<noteq> []"
    by (simp add: join_drop_nonempty_iff)
  then show ?thesis using Some by simp
qed

text \<open>
  Claim C9. When the text of the final window is non-empty after stripping, which is the
  text the merge works on, the merge appends a non-empty contribution for that window. For
  a single window the merged text is the stripped text. Otherwise it is the text merged
  before, one separating space (none if that text ends with a space) and the contribution:
  the words after the first tested prefix that matches the tail of the merged text and
  leaves words behind it, or the whole stripped text when there is no such prefix, as when
  only the full sequence of words matches. The contribution is never empty.
\<close>

theorem final_window_contributes:
  assumes "rs \<noteq> []" and "wr_text (last rs) = Some t" and "strip t \<noteq> []"
  shows
    "let words = split (strip t);
         before = merged_before W rs (length rs - 1);
         contribution =
           (case find (\<lambda>j. phrase_matches before words j \<and> Suc j < length words)
                   [0..<max_check_words True words] of
              None \<Rightarrow> strip t
            | Some j \<Rightarrow> join (drop (Suc j) words))
     in contribution \<noteq> [] \<and>
        final_text W rs =
          (if length rs = 1 then strip t
           else (if ends_with_space before then before else before @ [32]) @ contribution)"
proof -
  let ?n = "length rs"
  let ?before = "fst (merge_loop W ?n 0 (butlast rs) ([], []))"
  have rs: "rs = butlast rs @ [last rs]" using assms(1) by simp
  have "final_text W rs = fst (merge_loop W ?n 0 (butlast rs @ [last rs]) ([], []))"
    using rs by (simp add: final_text_def merge_results_def)
  then have step: "final_text W rs = merge_text ?n (?n - 1) (last rs) ?before"
    by (simp add: fst_merge_loop_snoc)
  have before: "merged_before W rs (?n - 1) = ?before"
    by (simp add: merged_before_def butlast_conv_take)
  have last: "int (?n - 1) = int ?n - 1" using assms(1) by (cases rs) simp_all
  show ?thesis
  proof (cases "?n = 1")
    case True
    then have "butlast rs = []" by (cases rs) auto
    then have "final_text W rs = strip t"
      using step True assms(2) by (simp add: merge_text_def)
    then show ?thesis using True contribution_nonempty[OF assms(3)] by (simp add: Let_def)
  next
    case False
    then have pos: "0 < ?n - 1" using assms(1) by (cases rs) auto
    from merge_text_exact[OF pos assms(2,3), of ?n ?before]
    show ?thesis
      using False step before last contribution_nonempty[OF assms(3)]
      by (simp add: Let_def add_text_def)
  qed
qed

text \<open>The first word of the final window matches: the word after it is appended. The whole
  final window matches and nothing shorter does: the whole text is appended.\<close>

theorem final_window_contributes_witness:
  "[text_only (py ''we stop here''), text_only (py ''stop here'')] \<noteq> [] \<and>
   strip (py ''stop here'') \<noteq> [] \<and>
   final_text 30 [text_only (py ''we stop here''), text_only (py ''stop here'')] =
     py ''we stop here here'' \<and>
   phrase_matches (py ''stop here'') (split (strip (py ''here''))) 0 \<and>
   final_text 30 [text_only (py ''stop here''), text_only (py ''here'')] = py ''stop here here''"
proof -
  have ne: "[text_only (py ''we stop here''), text_only (py ''stop here'')] \<noteq> []" by simp
  have t: "wr_text (last [text_only (py ''we stop here''), text_only (py ''stop here'')]) =
             Some (py ''stop here'')"
    by (simp add: text_only_def)
  have s: "strip (py ''stop here'') \<noteq> []" by (simp add: string_defs)
  have a: "final_text 30 [text_only (py ''we stop here''), text_only (py ''stop here'')] =
     py ''we stop here here''"
    using final_window_contributes [OF ne t s, of 30]
    by (simp add: string_defs merged_before_def merge_text_def text_only_def
        max_check_words_def phrase_matches_def upt_rec Let_def)
  have m: "phrase_matches (py ''stop here'') (split (strip (py ''here''))) 0"
    by (simp add: string_defs merge_defs)
  have b: "final_text 30 [text_only (py ''stop here''), text_only (py ''here'')] = py ''stop here here''"
    by (simp add: string_defs merge_defs upt_rec)
  from ne s a m b show ?thesis by blast
qed

lemma plain_concat_snoc:
  "ts \<noteq> [] \<Longrightarrow> plain_concat (ts @ [t]) = plain_concat ts @ (if t = [] then [] else 32 # t)"
  by (cases ts) simp_all

lemma window_text_last: "window_text r \<noteq> [] \<Longrightarrow> last (window_text r) \<noteq> 32"
proof -
  assume ne: "window_text r \<noteq> []"
  then obtain t where t: "wr_text r = Some t" "window_text r = strip t"
    by (auto simp: window_text_def split: option.splits)
  with ne have "\<not> isspace (last (strip t))" by (simp add: last_strip_not_space)
  then show ?thesis using t by (auto simp: isspace_def)
qed

lemma plain_concat_no_trailing_space:
  "\<not> ends_with_space (plain_concat (map window_text rs))"
proof (induction rs rule: rev_induct)
  case Nil
  then show ?case by (simp add: ends_with_space_def)
next
  case (snoc r rs)
  show ?case
  proof (cases "rs = []")
    case True
    then show ?thesis using window_text_last[of r] by (auto simp: ends_with_space_def)
  next
    case False
    then show ?thesis using snoc window_text_last[of r]
      by (auto simp: plain_concat_snoc ends_with_space_def)
  qed
qed

lemma merge_text_first: "merge_text n 0 r [] = window_text r"
  by (simp add: merge_text_def window_text_def split: option.splits)

lemma merge_text_empty: "0 < i \<Longrightarrow> window_text r = [] \<Longrightarrow> merge_text n i r combined = combined"
  by (auto simp: merge_text_def window_text_def split: option.splits)

lemma no_overlap_prefix:
  assumes "k \<le> length rs"
    and "\<forall>i. 0 < i \<and> i < k \<longrightarrow>
           (\<forall>j < max_check_words (int i = int n - 1) (split (window_text (rs ! i))).
              \<not> phrase_matches (fst (merge_loop W n 0 (take i rs) ([], [])))
                  (split (window_text (rs ! i))) j)"
  shows "fst (merge_loop W n 0 (take k rs) ([], [])) = plain_concat (map window_text (take k rs))"
  using assms
proof (induction k)
  case 0
  then show ?case by simp
next
  case (Suc k)
  then have k: "k < length rs" by simp
  have tk: "take (Suc k) rs = take k rs @ [rs ! k]" using k by (simp add: take_Suc_conv_app_nth)
  have IH: "fst (merge_loop W n 0 (take k rs) ([], [])) = plain_concat (map window_text (take k rs))"
    using Suc by simp
  have step: "fst (merge_loop W n 0 (take (Suc k) rs) ([], [])) =
      merge_text n k (rs ! k) (plain_concat (map window_text (take k rs)))"
    using k by (simp add: tk fst_merge_loop_snoc IH)
  show ?case
  proof (cases "k = 0")
    case True
    have "take (Suc 0) rs = [rs ! 0]" using k True by (simp add: take_Suc_conv_app_nth)
    then show ?thesis using step True by (simp add: merge_text_first)
  next
    case False
    then have k0: "0 < k" by simp
    then have ne: "map window_text (take k rs) \<noteq> []" using k by auto
    show ?thesis
    proof (cases "window_text (rs ! k) = []")
      case True
      then show ?thesis using step k0 ne by (simp add: tk merge_text_empty plain_concat_snoc)
    next
      case nonempty: False
      then obtain t where t: "wr_text (rs ! k) = Some t" "window_text (rs ! k) = strip t"
        by (auto simp: window_text_def split: option.splits)
      have "\<forall>j < max_check_words (int k = int n - 1) (split (strip t)).
              \<not> phrase_matches (plain_concat (map window_text (take k rs))) (split (strip t)) j"
        using Suc.prems(2) k0 IH t by auto
      from merge_text_no_match[OF k0 t(1) _ this] nonempty t
      have "merge_text n k (rs ! k) (plain_concat (map window_text (take k rs))) =
              add_text (plain_concat (map window_text (take k rs))) (strip t)" by simp
      then show ?thesis using step ne nonempty t plain_concat_no_trailing_space[of "take k rs"]
        by (simp add: tk plain_concat_snoc add_text_def)
    qed
  qed
qed

text \<open>
  Claim C8, as the code has it. When for no window \<open>i > 0\<close> a tested prefix matches the tail
  of the text merged so far, the merged text is the stripped text of the first window
  followed, for each later window with a non-empty stripped text, by one space and that
  text. A window whose stripped text is empty adds nothing, not even a space.
\<close>

theorem no_overlap_merge_is_concatenation:
  assumes "\<forall>i. 0 < i \<and> i < length rs \<longrightarrow>
     (\<forall>j < max_check_words (int i = int (length rs) - 1) (split (window_text (rs ! i))).
        \<not> phrase_matches (merged_before W rs i) (split (window_text (rs ! i))) j)"
  shows "final_text W rs =
     (case rs of
        [] \<Rightarrow> []
      | r # rest \<Rightarrow>
          window_text r @ concat (map (\<lambda>t. 32 # t) (filter (\<lambda>t. t \<noteq> []) (map window_text rest))))"
proof -
  have "fst (merge_loop W (length rs) 0 (take (length rs) rs) ([], [])) =
          plain_concat (map window_text (take (length rs) rs))"
    by (rule no_overlap_prefix) (use assms in \<open>simp_all add: merged_before_def\<close>)
  then show ?thesis
    by (cases rs) (simp_all add: final_text_def merge_results_def)
qed

theorem no_overlap_merge_is_concatenation_witness:
  "final_text 30 [text_only (py ''good day''), text_only (py ''''), text_only (py '' fine '')] =
     py ''good day fine''"
  (is "final_text 30 ?rs = _")
proof -
  have h1: "\<forall>j < max_check_words (int 1 = int (length ?rs) - 1) (split (window_text (?rs ! 1))).
        \<not> phrase_matches (merged_before 30 ?rs 1) (split (window_text (?rs ! 1))) j"
    unfolding all_below_list_all by (simp add: string_defs merge_defs)
  have h2: "\<forall>j < max_check_words (int 2 = int (length ?rs) - 1) (split (window_text (?rs ! 2))).
        \<not> phrase_matches (merged_before 30 ?rs 2) (split (window_text (?rs ! 2))) j"
    unfolding all_below_list_all by (simp add: string_defs merge_defs upt_rec)
  have h: "\<forall>i. 0 < i \<and> i < length ?rs \<longrightarrow>
     (\<forall>j < max_check_words (int i = int (length ?rs) - 1) (split (window_text (?rs ! i))).
        \<not> phrase_matches (merged_before 30 ?rs i) (split (window_text (?rs ! i))) j)"
  proof (rule allI, rule impI)
    fix i assume "0 < i \<and> i < length ?rs"
    then consider "i = 1" | "i = 2" by fastforce
    then show "\<forall>j < max_check_words (int i = int (length ?rs) - 1) (split (window_text (?rs ! i))).
        \<not> phrase_matches (merged_before 30 ?rs i) (split (window_text (?rs ! i))) j"
    proof cases
      case 1
      show ?thesis unfolding 1 by (rule h1)
    next
      case 2
      show ?thesis unfolding 2 by (rule h2)
    qed
  qed
  have v: "window_text (text_only (py ''good day'')) @
      concat (map (\<lambda>t. 32 # t) (filter (\<lambda>t. t \<noteq> [])
        (map window_text [text_only (py ''''), text_only (py '' fine '')]))) = py ''good day fine''"
    by (simp add: string_defs merge_defs)
  from no_overlap_merge_is_concatenation [OF h] v show ?thesis by simp
qed

text \<open>With the texts \<open>a\<close>, the empty text and \<open>b\<close> the merge gives \<open>a b\<close>, while joining
  the three texts with single spaces gives \<open>a\<close>, two spaces, \<open>b\<close>.\<close>

theorem empty_window_no_separator_counterexample:
  "max_check_words False (split (window_text (text_only (py '''')))) = 0 \<and>
   max_check_words True (split (window_text (text_only (py ''b'')))) = 1 \<and>
   \<not> phrase_matches (merged_before 30 [text_only (py ''a''), text_only (py ''''), text_only (py ''b'')] 2)
        (split (window_text (text_only (py ''b'')))) 0 \<and>
   final_text 30 [text_only (py ''a''), text_only (py ''''), text_only (py ''b'')] = py ''a b'' \<and>
   join (map window_text [text_only (py ''a''), text_only (py ''''), text_only (py ''b'')]) = py ''a  b'' \<and>
   final_text 30 [text_only (py ''a''), text_only (py ''''), text_only (py ''b'')] \<noteq>
     join (map window_text [text_only (py ''a''), text_only (py ''''), text_only (py ''b'')])"
  by (simp add: string_defs merge_defs upt_rec)

subsection \<open>Effects of a transcription\<close>

lemma extends_events_iff:
  "extends_events P w w' \<longleftrightarrow> (\<exists>es. events w' = events w @ es \<and> list_all P es)"
proof
  assume "extends_events P w w'"
  then have "events w' = events w @ new_events w w'" "list_all P (new_events w w')"
    unfolding extends_events_def new_events_def
    by (metis append_take_drop_id, simp)
  then show "\<exists>es. events w' = events w @ es \<and> list_all P es" by blast
next
  assume "\<exists>es. events w' = events w @ es \<and> list_all P es"
  then show "extends_events P w w'"
    by (auto simp: extends_events_def new_events_def)
qed

lemma extends_events_refl: "extends_events P w w"
  by (simp add: extends_events_iff)

lemma extends_events_trans:
  "extends_events P w w' \<Longrightarrow> extends_events P w' w'' \<Longrightarrow> extends_events P w w''"
  by (auto simp: extends_events_iff)

lemma extends_events_emit: "P \<lparr>ev_task = tid, ev_status = st, ev_position = pos\<rparr> \<Longrightarrow>
   extends_events P w (emit tid st pos w)"
  by (simp add: extends_events_iff emit_def)

lemma same_resources_refl: "same_resources w w"
  by (simp add: same_resources_def)

lemma same_resources_trans:
  "same_resources w w' \<Longrightarrow> same_resources w' w'' \<Longrightarrow> same_resources w w''"
  by (simp add: same_resources_def)

lemma same_resources_emit: "same_resources w (emit tid st pos w)"
  by (simp add: same_resources_def emit_def)

lemma file_calls_emit: "file_calls (emit tid st pos w) = file_calls w"
  by (simp add: emit_def)

text \<open>The effect of one whole-file call.\<close>

lemma call_transcribe_file_effect:
  "call_transcribe_file e p l w = (r, w') \<Longrightarrow>
     r = transcribe_file e (length (file_calls w)) \<and>
     file_calls w' = file_calls w @ [(p, l)] \<and> events w' = events w \<and> same_resources w w'"
  by (auto simp: call_transcribe_file_def same_resources_def)

lemma run_windows_effect:
  "run_windows e tid is acc w = (r, w') \<Longrightarrow>
     file_calls w' = file_calls w \<and> same_resources w w' \<and> extends_events (progress_of tid) w w' \<and>
     (r = None \<longleftrightarrow> list_ex (\<lambda>i. transcribe_window e i = None) is)"
proof (induction "is" arbitrary: acc w)
  case Nil
  then show ?case by (auto simp: same_resources_refl extends_events_refl)
next
  case (Cons i "is")
  show ?case
  proof (cases "transcribe_window e i")
    case None
    with Cons.prems show ?thesis by (auto simp: same_resources_refl extends_events_refl)
  next
    case (Some sr)
    with Cons.prems have "run_windows e tid is (acc @ [sr]) (emit tid Processing None w) = (r, w')"
      by simp
    from Cons.IH[OF this] have
      fc: "file_calls w' = file_calls (emit tid Processing None w)" and
      sr: "same_resources (emit tid Processing None w) w'" and
      ee: "extends_events (progress_of tid) (emit tid Processing None w) w'" and
      rn: "r = None \<longleftrightarrow> list_ex (\<lambda>i. transcribe_window e i = None) is"
      by simp_all
    have "extends_events (progress_of tid) w (emit tid Processing None w)"
      by (rule extends_events_emit) (simp add: progress_of_def)
    then have "extends_events (progress_of tid) w w'"
      using ee by (rule extends_events_trans)
    moreover have "same_resources w w'"
      using same_resources_emit sr by (rule same_resources_trans)
    ultimately show ?thesis using fc rn Some by (simp add: file_calls_emit)
  qed
qed

lemma segmented_effect:
  assumes "segmented e l tid w = (r, w')"
  shows "file_calls w' = file_calls w \<and> same_resources w w' \<and> extends_events (progress_of tid) w w' \<and>
     (r = None \<longleftrightarrow> segmented_raises e)"
proof (cases "load_audio e")
  case None
  with assms show ?thesis
    by (auto simp: segmented_def segmented_raises_def same_resources_refl extends_events_refl)
next
  case (Some n)
  show ?thesis
  proof (cases "segment_duration e")
    case None
    with Some assms show ?thesis
      by (auto simp: segmented_def segmented_raises_def same_resources_refl extends_events_refl)
  next
    case W: (Some W)
    show ?thesis
    proof (cases "W = 0")
      case True
      with Some W assms show ?thesis
        by (auto simp: segmented_def segmented_raises_def same_resources_refl extends_events_refl)
    next
      case False
      obtain rw w1 where rw: "run_windows e tid [0..<total_segments (of_nat n / SAMPLE_RATE) W] [] w = (rw, w1)"
        by (cases "run_windows e tid [0..<total_segments (of_nat n / SAMPLE_RATE) W] [] w")
      from run_windows_effect[OF rw] assms Some W False rw show ?thesis
        by (cases rw) (auto simp: segmented_def segmented_raises_def Let_def)
    qed
  qed
qed

lemma extends_events_same: "events w' = events w \<Longrightarrow> extends_events P w w'"
  by (simp add: extends_events_iff)

lemma transcribe_with_progress_effect:
  assumes "transcribe_with_progress e p l tid w = (r, w')"
  shows "same_resources w w' \<and> extends_events (progress_of tid) w w' \<and>
     (if segmented_raises e
      then r = transcribe_file e (length (file_calls w)) \<and> file_calls w' = file_calls w @ [(p, l)]
      else r \<noteq> None \<and> file_calls w' = file_calls w)"
proof -
  obtain rs w1 where s: "segmented e l tid w = (rs, w1)" by (cases "segmented e l tid w")
  note se = segmented_effect[OF s]
  show ?thesis
  proof (cases rs)
    case None
    with assms s have c: "call_transcribe_file e p l w1 = (r, w')"
      by (simp add: transcribe_with_progress_def)
    note ce = call_transcribe_file_effect[OF c]
    have "same_resources w w'" using se ce by (blast intro: same_resources_trans)
    moreover have "extends_events (progress_of tid) w w'"
      using se ce by (blast intro: extends_events_trans extends_events_same)
    ultimately show ?thesis using se ce None by simp
  next
    case (Some res)
    with assms s have "r = Some res" "w' = w1" by (simp_all add: transcribe_with_progress_def)
    then show ?thesis using se Some by simp
  qed
qed

lemma transcribe_with_interrupt_effect:
  assumes "transcribe_with_interrupt e p lang tid w = (r, w')"
  shows "same_resources w w' \<and> extends_events (progress_of tid) w w' \<and>
     (case resolve_language e lang of
        None \<Rightarrow> r = transcribe_file e (length (file_calls w)) \<and>
                 file_calls w' = file_calls w @ [(p, lang_arg lang)]
      | Some l \<Rightarrow>
          if \<not> segmented_raises e then r \<noteq> None \<and> file_calls w' = file_calls w
          else if transcribe_file e (length (file_calls w)) \<noteq> None
          then r = transcribe_file e (length (file_calls w)) \<and>
               file_calls w' = file_calls w @ [(p, lang_arg (Some l))]
          else r = transcribe_file e (length (file_calls w) + 1) \<and>
               file_calls w' = file_calls w @ [(p, lang_arg (Some l)), (p, lang_arg (Some l))])"
proof (cases "resolve_language e lang")
  case None
  with assms have c: "call_transcribe_file e p (lang_arg lang) w = (r, w')"
    by (simp add: transcribe_with_interrupt_def)
  from call_transcribe_file_effect[OF c] None show ?thesis
    by (simp add: extends_events_same)
next
  case (Some l)
  let ?w0 = "emit tid Processing None w"
  have e0: "extends_events (progress_of tid) w ?w0"
    by (rule extends_events_emit) (simp add: progress_of_def)
  have r0: "same_resources w ?w0" by (rule same_resources_emit)
  obtain rp w1 where tp: "transcribe_with_progress e p (lang_arg (Some l)) tid ?w0 = (rp, w1)"
    by (cases "transcribe_with_progress e p (lang_arg (Some l)) tid ?w0")
  note pe = transcribe_with_progress_effect[OF tp]
  have e1: "extends_events (progress_of tid) w w1"
    using e0 pe by (blast intro: extends_events_trans)
  have r1: "same_resources w w1" using r0 pe by (blast intro: same_resources_trans)
  show ?thesis
  proof (cases rp)
    case None
    with assms Some tp have c: "call_transcribe_file e p (lang_arg (Some l)) w1 = (r, w')"
      by (simp add: transcribe_with_interrupt_def)
    note ce = call_transcribe_file_effect[OF c]
    have raises: "segmented_raises e" using pe None by (auto split: if_splits)
    then have first: "transcribe_file e (length (file_calls w)) = None"
      and fc1: "file_calls w1 = file_calls w @ [(p, lang_arg (Some l))]"
      using pe None by (simp_all add: file_calls_emit)
    have "same_resources w w'" using r1 ce by (blast intro: same_resources_trans)
    moreover have "extends_events (progress_of tid) w w'"
      using e1 ce by (blast intro: extends_events_trans extends_events_same)
    ultimately show ?thesis using Some raises first fc1 ce by simp
  next
    case res: (Some res)
    with assms Some tp have rw: "r = Some res" "w' = emit tid Processing None w1"
      by (simp_all add: transcribe_with_interrupt_def)
    have "extends_events (progress_of tid) w1 w'" unfolding rw
      by (rule extends_events_emit) (simp add: progress_of_def)
    with e1 have "extends_events (progress_of tid) w w'" by (rule extends_events_trans)
    moreover have "same_resources w w'" unfolding rw
      using r1 same_resources_emit by (rule same_resources_trans)
    ultimately show ?thesis using Some pe res rw
      by (auto simp: file_calls_emit split: if_splits)
  qed
qed

lemma extends_events_mono:
  "extends_events P w w' \<Longrightarrow> (\<And>ev. P ev \<Longrightarrow> Q ev) \<Longrightarrow> extends_events Q w w'"
  by (auto simp: extends_events_iff list_all_iff)

lemma same_resources_registry:
  "same_resources w w' \<Longrightarrow>
     releases w' = releases w \<and> active_transcriptions w' = active_transcriptions w \<and>
     transcription_start_times w' = transcription_start_times w \<and>
     transcription_timers w' = transcription_timers w \<and>
     transcription_queue w' = transcription_queue w"
  by (simp add: same_resources_def)

text \<open>The \<^verbatim>\<open>try\<close> block touches neither the release log nor the registries.\<close>

lemma process_body_registry:
  assumes "process_body e t w = (out, w')"
  shows "releases w' = releases w \<and> active_transcriptions w' = active_transcriptions w \<and>
     transcription_start_times w' = transcription_start_times w \<and>
     transcription_timers w' = transcription_timers w \<and>
     transcription_queue w' = transcription_queue w \<and>
     extends_events (of_task (task_id t)) w w'"
proof -
  let ?tid = "task_id t"
  let ?w1 = "emit ?tid Processing None w"
  have e1: "extends_events (of_task ?tid) w ?w1"
    by (rule extends_events_emit) (simp add: of_task_def)
  have r1: "same_resources w ?w1" by (rule same_resources_emit)
  show ?thesis
  proof (cases "load_model_ok e")
    case False
    with assms have w': "w' = emit ?tid Failed None ?w1" by (simp add: process_body_def Let_def)
    have "extends_events (of_task ?tid) ?w1 w'" unfolding w'
      by (rule extends_events_emit) (simp add: of_task_def)
    with e1 have "extends_events (of_task ?tid) w w'" by (rule extends_events_trans)
    then show ?thesis using w' by (simp add: emit_def)
  next
    case True
    obtain r w2 where ti: "transcribe_with_interrupt e (file_path t) (language t) ?tid ?w1 = (r, w2)"
      by (cases "transcribe_with_interrupt e (file_path t) (language t) ?tid ?w1")
    note ie = transcribe_with_interrupt_effect[OF ti]
    from ie have "extends_events (progress_of ?tid) ?w1 w2" by simp
    then have "extends_events (of_task ?tid) ?w1 w2"
      by (rule extends_events_mono) (simp add: progress_of_def of_task_def)
    with e1 have e2: "extends_events (of_task ?tid) w w2" by (rule extends_events_trans)
    have r2: "same_resources w w2" using r1 ie by (blast intro: same_resources_trans)
    from assms True ti consider
        "w' = w2" | "w' = emit ?tid Failed None w2"
      | res where "w' = emit ?tid Completed None (w2\<lparr>files := (files w2)(output_path t \<mapsto> res)\<rparr>)"
      by (auto simp: process_body_def Let_def split: option.splits if_splits)
    then show ?thesis
    proof cases
      case 1
      then show ?thesis using e2 same_resources_registry[OF r2] by simp
    next
      case 2
      have "extends_events (of_task ?tid) w2 w'" unfolding 2
        by (rule extends_events_emit) (simp add: of_task_def)
      with e2 have "extends_events (of_task ?tid) w w'" by (rule extends_events_trans)
      then show ?thesis using 2 same_resources_registry[OF r2] by (simp add: emit_def)
    next
      case 3
      have "extends_events (of_task ?tid) w2 w'"
        unfolding 3 by (simp add: extends_events_iff emit_def of_task_def)
      with e2 have "extends_events (of_task ?tid) w w'" by (rule extends_events_trans)
      then show ?thesis using 3 same_resources_registry[OF r2] by (simp add: emit_def)
    qed
  qed
qed

lemma cleanup_effect:
  "events (cleanup ids tid w) = events w \<and> files (cleanup ids tid w) = files w \<and>
   file_calls (cleanup ids tid w) = file_calls w \<and>
   transcription_queue (cleanup ids tid w) = transcription_queue w \<and>
   active_transcriptions (cleanup ids tid w) tid = None"
  by (simp add: cleanup_def release_model_memory_def Let_def split: option.splits)

lemma cleanup_registered_releases:
  "active_transcriptions w tid = Some info \<Longrightarrow>
   releases (cleanup ids tid w) =
     releases w @ (if ti_gpu_ids info = [] then [] else [ti_gpu_ids info, ti_gpu_ids info])"
  by (simp add: cleanup_def release_model_memory_def Let_def)

lemma worker_run_releases:
  "releases (worker_run e t (worker_register t w)) =
     releases w @ (if gpu_ids t = [] then [] else [gpu_ids t, gpu_ids t])"
proof -
  let ?w0 = "worker_register t w"
  obtain out w1 where pb: "process_body e t ?w0 = (out, w1)" by (cases "process_body e t ?w0")
  from process_body_registry[OF pb]
  have "releases w1 = releases w"
    and "active_transcriptions w1 (task_id t) =
           Some \<lparr>ti_file = basename (file_path t), ti_gpu_ids = gpu_ids t\<rparr>"
    by (simp_all add: worker_register_def)
  then have "releases (cleanup (gpu_ids t) (task_id t) w1) =
      releases w @ (if gpu_ids t = [] then [] else [gpu_ids t, gpu_ids t])"
    by (simp add: cleanup_registered_releases)
  then show ?thesis using pb
    by (cases out) (simp_all add: worker_run_def transcribe_audio_process_def)
qed

text \<open>Facts for evaluating a task on a concrete environment.\<close>

lemma one_second_one_window: "total_segments (16000 / SAMPLE_RATE) 30 = 1"
proof -
  have "\<lceil>(1::rat) / 30\<rceil> = 1" by (rule ceiling_unique) simp_all
  then show ?thesis by (simp add: total_segments_def SAMPLE_RATE_def)
qed

lemmas worker_defs = worker_run_def worker_register_def transcribe_audio_process_def
  process_body_def cleanup_def release_model_memory_def transcribe_with_interrupt_def
  transcribe_with_progress_def segmented_def call_transcribe_file_def resolve_language_def
  lang_arg_def emit_def initial_world_def segmented_raises_def

subsection \<open>Release of resources\<close>

text \<open>
  Claim C1, as the code has it. For a task the worker has registered, whatever the
  environment does (the model does not load, a transcription raises, the output cannot be
  written, or the task completes), the \<^verbatim>\<open>finally\<close> block calls
  \<^verbatim>\<open>release_model_memory\<close> with the task's \<^verbatim>\<open>gpu_ids\<close> twice when that list is
  non-empty and not at all when it is empty: the number of calls is 2 or 0, never 1, and does
  not depend on the outcome.
\<close>

theorem release_called_twice_or_never:
  "releases (worker_run e t (worker_register t w)) =
     releases w @ (if gpu_ids t = [] then [] else [gpu_ids t, gpu_ids t]) \<and>
   length (releases (worker_run e t (worker_register t w))) - length (releases w) =
     (if gpu_ids t = [] then 0 else 2)"
  by (simp add: worker_run_releases)

theorem release_called_twice_or_never_witness:
  "releases (worker_run
      \<lparr>load_model_ok = False, load_audio = None, detect_language = None,
        segment_duration = None, transcribe_window = (\<lambda>i. None),
        transcribe_file = (\<lambda>k. None), write_ok = False\<rparr>
      \<lparr>file_path = ''uploads/a.wav'', output_path = ''outputs/a.txt'', model_name = ''base'',
        language = Some ''en'', gpu_ids = [], task_id = ''t1''\<rparr>
      (worker_register
        \<lparr>file_path = ''uploads/a.wav'', output_path = ''outputs/a.txt'', model_name = ''base'',
          language = Some ''en'', gpu_ids = [], task_id = ''t1''\<rparr> initial_world)) = []"
  using release_called_twice_or_never
    [of "\<lparr>load_model_ok = False, load_audio = None, detect_language = None,
        segment_duration = None, transcribe_window = (\<lambda>i. None),
        transcribe_file = (\<lambda>k. None), write_ok = False\<rparr>"
      "\<lparr>file_path = ''uploads/a.wav'', output_path = ''outputs/a.txt'', model_name = ''base'',
        language = Some ''en'', gpu_ids = [], task_id = ''t1''\<rparr>" initial_world]
  by (simp add: initial_world_def)

text \<open>A task on GPU 0 that completes: two calls of \<^verbatim>\<open>release_model_memory\<close>.\<close>

theorem release_called_twice_counterexample:
  "fst (transcribe_audio_process
      \<lparr>load_model_ok = True, load_audio = Some 16000, detect_language = None,
        segment_duration = Some 30, transcribe_window = (\<lambda>i. Some (text_only (py ''hi''))),
        transcribe_file = (\<lambda>k. None), write_ok = True\<rparr>
      \<lparr>file_path = ''uploads/a.wav'', output_path = ''outputs/a.txt'', model_name = ''base'',
        language = Some ''en'', gpu_ids = [0], task_id = ''t1''\<rparr>
      (worker_register
        \<lparr>file_path = ''uploads/a.wav'', output_path = ''outputs/a.txt'', model_name = ''base'',
          language = Some ''en'', gpu_ids = [0], task_id = ''t1''\<rparr> initial_world))
     = Returned (Some (py ''hi'')) \<and>
   releases (worker_run
      \<lparr>load_model_ok = True, load_audio = Some 16000, detect_language = None,
        segment_duration = Some 30, transcribe_window = (\<lambda>i. Some (text_only (py ''hi''))),
        transcribe_file = (\<lambda>k. None), write_ok = True\<rparr>
      \<lparr>file_path = ''uploads/a.wav'', output_path = ''outputs/a.txt'', model_name = ''base'',
        language = Some ''en'', gpu_ids = [0], task_id = ''t1''\<rparr>
      (worker_register
        \<lparr>file_path = ''uploads/a.wav'', output_path = ''outputs/a.txt'', model_name = ''base'',
          language = Some ''en'', gpu_ids = [0], task_id = ''t1''\<rparr> initial_world))
     = [[0], [0]] \<and>
   length [[0::nat], [0]] \<noteq> 1"
  by (simp add: worker_defs one_second_one_window final_result_def final_text_def merge_results_def merge_text_def
      text_only_def py_def strip_def isspace_def)

subsection \<open>Fallback to the whole file\<close>

lemma worker_run_file_calls:
  assumes "load_model_ok e" and "resolve_language e (language t) = Some l" and "segmented_raises e"
  shows "file_calls (worker_run e t (worker_register t w)) =
     file_calls w @
       (if transcribe_file e (length (file_calls w)) = None
        then [(file_path t, lang_arg (Some l)), (file_path t, lang_arg (Some l))]
        else [(file_path t, lang_arg (Some l))])"
proof -
  let ?w0 = "worker_register t w"
  let ?w1 = "emit (task_id t) Processing None ?w0"
  have fc: "file_calls ?w1 = file_calls w" by (simp add: emit_def worker_register_def)
  obtain r w2 where ti: "transcribe_with_interrupt e (file_path t) (language t) (task_id t) ?w1 = (r, w2)"
    by (cases "transcribe_with_interrupt e (file_path t) (language t) (task_id t) ?w1")
  from transcribe_with_interrupt_effect[OF ti] assms(2,3) fc
  have w2: "file_calls w2 = file_calls w @
       (if transcribe_file e (length (file_calls w)) = None
        then [(file_path t, lang_arg (Some l)), (file_path t, lang_arg (Some l))]
        else [(file_path t, lang_arg (Some l))])"
    by (auto split: if_splits)
  obtain out w3 where pb: "process_body e t ?w0 = (out, w3)" by (cases "process_body e t ?w0")
  with assms(1) ti have "file_calls w3 = file_calls w2"
    by (auto simp: process_body_def Let_def emit_def split: option.splits if_splits)
  then show ?thesis using pb w2
    by (cases out) (simp_all add: worker_run_def transcribe_audio_process_def cleanup_effect)
qed

text \<open>
  Claim C6, as the code has it. For a task whose model loads, whose language step
  succeeds and whose windowed transcription raises, \<^verbatim>\<open>transcribe_with_progress\<close> makes
  one whole-file call; when that call raises, \<^verbatim>\<open>transcribe_with_interrupt\<close> makes a
  second one. The task makes exactly one whole-file call when the first succeeds and
  exactly two when it raises.
\<close>

theorem fallback_calls_one_or_two:
  assumes "load_model_ok e" and "resolve_language e (language t) = Some l" and "segmented_raises e"
  shows "file_calls (worker_run e t (worker_register t w)) =
     file_calls w @
       (if transcribe_file e (length (file_calls w)) = None
        then [(file_path t, lang_arg (Some l)), (file_path t, lang_arg (Some l))]
        else [(file_path t, lang_arg (Some l))])"
  using assms by (rule worker_run_file_calls)

theorem fallback_calls_one_or_two_witness:
  "load_model_ok
     \<lparr>load_model_ok = True, load_audio = Some 16000, detect_language = None,
       segment_duration = None, transcribe_window = (\<lambda>i. None),
       transcribe_file = (\<lambda>k. Some \<lparr>res_text = py ''hi'', res_segments = [], res_language = None\<rparr>),
       write_ok = True\<rparr> \<and>
   segmented_raises
     \<lparr>load_model_ok = True, load_audio = Some 16000, detect_language = None,
       segment_duration = None, transcribe_window = (\<lambda>i. None),
       transcribe_file = (\<lambda>k. Some \<lparr>res_text = py ''hi'', res_segments = [], res_language = None\<rparr>),
       write_ok = True\<rparr> \<and>
   file_calls (worker_run
     \<lparr>load_model_ok = True, load_audio = Some 16000, detect_language = None,
       segment_duration = None, transcribe_window = (\<lambda>i. None),
       transcribe_file = (\<lambda>k. Some \<lparr>res_text = py ''hi'', res_segments = [], res_language = None\<rparr>),
       write_ok = True\<rparr>
     \<lparr>file_path = ''uploads/a.wav'', output_path = ''outputs/a.txt'', model_name = ''base'',
       language = Some ''en'', gpu_ids = [0], task_id = ''t1''\<rparr>
     (worker_register
       \<lparr>file_path = ''uploads/a.wav'', output_path = ''outputs/a.txt'', model_name = ''base'',
         language = Some ''en'', gpu_ids = [0], task_id = ''t1''\<rparr> initial_world))
   = [(''uploads/a.wav'', Some ''en'')]"
  (is "load_model_ok ?e \<and> _ \<and> file_calls (worker_run ?e ?t _) = _")
proof -
  have m: "load_model_ok ?e" by simp
  have l: "resolve_language ?e (language ?t) = Some ''en''" by (simp add: resolve_language_def)
  have s: "segmented_raises ?e" by (simp add: segmented_raises_def)
  from fallback_calls_one_or_two [OF m l s, of initial_world] m s show ?thesis
    by (simp add: initial_world_def lang_arg_def)
qed

text \<open>Windowed transcription raises and every whole-file call raises: two whole-file
  calls are made for the task.\<close>

theorem second_fallback_call_counterexample:
  "segmented_raises
     \<lparr>load_model_ok = True, load_audio = Some 16000, detect_language = None,
       segment_duration = None, transcribe_window = (\<lambda>i. None),
       transcribe_file = (\<lambda>k. None), write_ok = True\<rparr> \<and>
   file_calls (worker_run
     \<lparr>load_model_ok = True, load_audio = Some 16000, detect_language = None,
       segment_duration = None, transcribe_window = (\<lambda>i. None),
       transcribe_file = (\<lambda>k. None), write_ok = True\<rparr>
     \<lparr>file_path = ''uploads/a.wav'', output_path = ''outputs/a.txt'', model_name = ''base'',
       language = Some ''en'', gpu_ids = [0], task_id = ''t1''\<rparr>
     (worker_register
       \<lparr>file_path = ''uploads/a.wav'', output_path = ''outputs/a.txt'', model_name = ''base'',
         language = Some ''en'', gpu_ids = [0], task_id = ''t1''\<rparr> initial_world))
   = [(''uploads/a.wav'', Some ''en''), (''uploads/a.wav'', Some ''en'')] \<and>
   \<not> length [(''uploads/a.wav'', Some ''en''), (''uploads/a.wav'', Some ''en'')] \<le> 1"
  by (simp add: worker_defs)

lemma transcribe_with_interrupt_none:
  assumes "segmented_raises e"
    and "transcribe_file e (length (file_calls w)) = None"
    and "transcribe_file e (Suc (length (file_calls w))) = None"
    and "transcribe_with_interrupt e p lang tid w = (r, w')"
  shows "r = None"
  using transcribe_with_interrupt_effect[OF assms(4)] assms(1-3)
  by (cases "resolve_language e lang") simp_all

text \<open>
  Claim C10. When the model loads, the windowed transcription raises and the whole-file
  calls the task makes (the next one and the one after it) raise,
  \<^verbatim>\<open>transcribe_with_interrupt\<close> returns
  \<^verbatim>\<open>None\<close>, \<^verbatim>\<open>transcribe_audio_process\<close> returns \<^verbatim>\<open>None\<close>, no output file is written
  and none of the events it emits has the status completed or failed.
\<close>

theorem double_failure_is_silent:
  assumes "load_model_ok e" and "segmented_raises e"
    and "transcribe_file e (length (file_calls w)) = None"
    and "transcribe_file e (Suc (length (file_calls w))) = None"
  shows "fst (transcribe_with_interrupt e (file_path t) (language t) (task_id t)
                (emit (task_id t) Processing None w)) = None \<and>
         fst (transcribe_audio_process e t w) = Returned None \<and>
         files (snd (transcribe_audio_process e t w)) = files w \<and>
         take (length (events w)) (events (snd (transcribe_audio_process e t w))) = events w \<and>
         list_all (\<lambda>ev. ev_status ev \<noteq> Completed \<and> ev_status ev \<noteq> Failed)
           (drop (length (events w)) (events (snd (transcribe_audio_process e t w))))"
proof -
  let ?tid = "task_id t"
  let ?w1 = "emit ?tid Processing None w"
  obtain r w2 where ti: "transcribe_with_interrupt e (file_path t) (language t) ?tid ?w1 = (r, w2)"
    by (cases "transcribe_with_interrupt e (file_path t) (language t) ?tid ?w1")
  have "file_calls ?w1 = file_calls w" by (simp add: emit_def)
  then have r: "r = None"
    using transcribe_with_interrupt_none[OF assms(2) _ _ ti] assms(3,4) by simp
  note ie = transcribe_with_interrupt_effect[OF ti]
  have pb: "process_body e t w = (Returned None, w2)"
    using assms(1) ti r by (simp add: process_body_def Let_def)
  have "extends_events (progress_of ?tid) w ?w1"
    by (rule extends_events_emit) (simp add: progress_of_def)
  moreover have "extends_events (progress_of ?tid) ?w1 w2" using ie by simp
  ultimately have "extends_events (progress_of ?tid) w w2" by (rule extends_events_trans)
  then have "extends_events (\<lambda>ev. ev_status ev \<noteq> Completed \<and> ev_status ev \<noteq> Failed) w w2"
    by (rule extends_events_mono) (simp add: progress_of_def)
  then have ev: "take (length (events w)) (events w2) = events w \<and>
      list_all (\<lambda>ev. ev_status ev \<noteq> Completed \<and> ev_status ev \<noteq> Failed)
        (drop (length (events w)) (events w2))"
    by (simp add: extends_events_def new_events_def)
  have "same_resources w w2"
    using same_resources_emit ie by (blast intro: same_resources_trans)
  then have fl: "files w2 = files w" by (simp add: same_resources_def)
  show ?thesis using ti r pb ev fl
    by (simp add: transcribe_audio_process_def cleanup_effect)
qed

theorem double_failure_is_silent_witness:
  "load_model_ok
     \<lparr>load_model_ok = True, load_audio = Some 16000, detect_language = None,
       segment_duration = None, transcribe_window = (\<lambda>i. None),
       transcribe_file = (\<lambda>k. None), write_ok = True\<rparr> \<and>
   segmented_raises
     \<lparr>load_model_ok = True, load_audio = Some 16000, detect_language = None,
       segment_duration = None, transcribe_window = (\<lambda>i. None),
       transcribe_file = (\<lambda>k. None), write_ok = True\<rparr> \<and>
   fst (transcribe_audio_process
     \<lparr>load_model_ok = True, load_audio = Some 16000, detect_language = None,
       segment_duration = None, transcribe_window = (\<lambda>i. None),
       transcribe_file = (\<lambda>k. None), write_ok = True\<rparr>
     \<lparr>file_path = ''uploads/a.wav'', output_path = ''outputs/a.txt'', model_name = ''base'',
       language = Some ''en'', gpu_ids = [0], task_id = ''t1''\<rparr>
     initial_world) = Returned None \<and>
   files (snd (transcribe_audio_process
     \<lparr>load_model_ok = True, load_audio = Some 16000, detect_language = None,
       segment_duration = None, transcribe_window = (\<lambda>i. None),
       transcribe_file = (\<lambda>k. None), write_ok = True\<rparr>
     \<lparr>file_path = ''uploads/a.wav'', output_path = ''outputs/a.txt'', model_name = ''base'',
       language = Some ''en'', gpu_ids = [0], task_id = ''t1''\<rparr>
     initial_world)) = Map.empty"
  (is "load_model_ok ?e \<and> _ \<and> fst (transcribe_audio_process ?e ?t _) = _ \<and> _")
proof -
  have m: "load_model_ok ?e" by simp
  have s: "segmented_raises ?e" by (simp add: segmented_raises_def)
  have f: "transcribe_file ?e (length (file_calls initial_world)) = None"
    and g: "transcribe_file ?e (Suc (length (file_calls initial_world))) = None" by simp_all
  from double_failure_is_silent [OF m s f g, of ?t] m s show ?thesis
    by (simp add: initial_world_def)
qed

subsection \<open>Queue positions and the next task\<close>

lemma worker_run_effect:
  "extends_events (of_task (task_id t)) w (worker_run e t w) \<and>
   transcription_queue (worker_run e t w) = transcription_queue w \<and>
   active_transcriptions (worker_run e t w) (task_id t) = None"
proof -
  obtain out w1 where pb: "process_body e t w = (out, w1)" by (cases "process_body e t w")
  note pr = process_body_registry[OF pb]
  let ?w2 = "cleanup (gpu_ids t) (task_id t) w1"
  have "extends_events (of_task (task_id t)) w1 ?w2"
    by (rule extends_events_same) (simp add: cleanup_effect)
  with pr have "extends_events (of_task (task_id t)) w ?w2"
    by (blast intro: extends_events_trans)
  moreover have "transcription_queue ?w2 = transcription_queue w"
    using pr by (simp add: cleanup_effect)
  moreover have "active_transcriptions ?w2 (task_id t) = None"
    by (simp add: cleanup_effect)
  ultimately show ?thesis using pb
    by (cases out) (simp_all add: worker_run_def transcribe_audio_process_def
        extends_events_def new_events_def)
qed

text \<open>The events of the block under \<^verbatim>\<open>queue_lock\<close> for one file: the queued event with the
  length of the queue after the append and, when the queue was empty, a processing event.\<close>

lemma enqueue_task_effect:
  "events (enqueue_task t w) =
     events w @
       \<lparr>ev_task = task_id t, ev_status = Queued,
         ev_position = Some (length (transcription_queue w) + 1)\<rparr> #
       (if transcription_queue w = []
        then [\<lparr>ev_task = task_id t, ev_status = Processing, ev_position = None\<rparr>] else []) \<and>
   transcription_queue (enqueue_task t w) = transcription_queue w @ [t] \<and>
   active_transcriptions (enqueue_task t w) = active_transcriptions w \<and>
   releases (enqueue_task t w) = releases w"
  by (simp add: enqueue_task_def emit_def Let_def)

text \<open>
  Claim C7, as the code has it. In every state, the enqueue step for an existing file emits
  first, and as its only queued event, the queued event of the new task, with the length
  of the pending queue after the append as position; the task is appended to the queue and
  the registry of the tasks in flight is left as it is. The worker removes a task from the
  queue before it processes it, so a second task submitted while the first is being
  processed finds an empty queue and is reported at position 1.
\<close>

theorem enqueue_reports_pending_position:
  assumes "ex (file_path t)"
  shows "take (length (events w)) (events (add_to_queue ex [t] w)) = events w \<and>
         hd (new_events w (add_to_queue ex [t] w)) =
           \<lparr>ev_task = task_id t, ev_status = Queued,
             ev_position = Some (length (transcription_queue w) + 1)\<rparr> \<and>
         filter (\<lambda>ev. ev_status ev = Queued) (new_events w (add_to_queue ex [t] w)) =
           [\<lparr>ev_task = task_id t, ev_status = Queued,
              ev_position = Some (length (transcription_queue w) + 1)\<rparr>] \<and>
         transcription_queue (add_to_queue ex [t] w) = transcription_queue w @ [t] \<and>
         active_transcriptions (add_to_queue ex [t] w) = active_transcriptions w"
proof -
  have "add_to_queue ex [t] w = enqueue_task t w" using assms by simp
  then show ?thesis using enqueue_task_effect[of t w] by (simp add: new_events_def)
qed

theorem enqueue_reports_pending_position_witness:
  "transcription_queue
     (worker_register
       \<lparr>file_path = ''uploads/a.wav'', output_path = ''outputs/a.txt'', model_name = ''base'',
         language = Some ''en'', gpu_ids = [0], task_id = ''t1''\<rparr>
       (snd (worker_dequeue (add_to_queue (\<lambda>p. True)
         [\<lparr>file_path = ''uploads/a.wav'', output_path = ''outputs/a.txt'', model_name = ''base'',
           language = Some ''en'', gpu_ids = [0], task_id = ''t1''\<rparr>] initial_world)))) = [] \<and>
   hd (new_events
     (worker_register
       \<lparr>file_path = ''uploads/a.wav'', output_path = ''outputs/a.txt'', model_name = ''base'',
         language = Some ''en'', gpu_ids = [0], task_id = ''t1''\<rparr>
       (snd (worker_dequeue (add_to_queue (\<lambda>p. True)
         [\<lparr>file_path = ''uploads/a.wav'', output_path = ''outputs/a.txt'', model_name = ''base'',
           language = Some ''en'', gpu_ids = [0], task_id = ''t1''\<rparr>] initial_world))))
     (add_to_queue (\<lambda>p. True)
       [\<lparr>file_path = ''uploads/b.wav'', output_path = ''outputs/b.txt'', model_name = ''base'',
         language = Some ''en'', gpu_ids = [0], task_id = ''t2''\<rparr>]
       (worker_register
         \<lparr>file_path = ''uploads/a.wav'', output_path = ''outputs/a.txt'', model_name = ''base'',
           language = Some ''en'', gpu_ids = [0], task_id = ''t1''\<rparr>
         (snd (worker_dequeue (add_to_queue (\<lambda>p. True)
           [\<lparr>file_path = ''uploads/a.wav'', output_path = ''outputs/a.txt'', model_name = ''base'',
             language = Some ''en'', gpu_ids = [0], task_id = ''t1''\<rparr>] initial_world)))))) =
     \<lparr>ev_task = ''t2'', ev_status = Queued, ev_position = Some 1\<rparr>"
  (is "transcription_queue ?w = [] \<and> hd (new_events ?w (add_to_queue ?ex [?t2] ?w)) = _")
proof -
  have q: "transcription_queue ?w = []"
    by (simp add: enqueue_task_def emit_def initial_world_def Let_def worker_dequeue_def
        worker_register_def)
  from enqueue_reports_pending_position [where ex = ?ex and t = ?t2 and w = ?w, OF TrueI] q
  show ?thesis by simp
qed

text \<open>The second task is submitted after the worker has dequeued and registered the first:
  it is reported at position 1, and as processing at once, while the first is still
  registered and nothing has been released.\<close>

theorem premature_processing_counterexample:
  "fst (worker_dequeue (add_to_queue (\<lambda>p. True)
     [\<lparr>file_path = ''uploads/a.wav'', output_path = ''outputs/a.txt'', model_name = ''base'',
       language = Some ''en'', gpu_ids = [0], task_id = ''t1''\<rparr>] initial_world)) =
     Some \<lparr>file_path = ''uploads/a.wav'', output_path = ''outputs/a.txt'', model_name = ''base'',
       language = Some ''en'', gpu_ids = [0], task_id = ''t1''\<rparr> \<and>
   events (add_to_queue (\<lambda>p. True)
     [\<lparr>file_path = ''uploads/b.wav'', output_path = ''outputs/b.txt'', model_name = ''base'',
       language = Some ''en'', gpu_ids = [0], task_id = ''t2''\<rparr>]
     (worker_register
       \<lparr>file_path = ''uploads/a.wav'', output_path = ''outputs/a.txt'', model_name = ''base'',
         language = Some ''en'', gpu_ids = [0], task_id = ''t1''\<rparr>
       (snd (worker_dequeue (add_to_queue (\<lambda>p. True)
         [\<lparr>file_path = ''uploads/a.wav'', output_path = ''outputs/a.txt'', model_name = ''base'',
           language = Some ''en'', gpu_ids = [0], task_id = ''t1''\<rparr>] initial_world))))) =
     [\<lparr>ev_task = ''t1'', ev_status = Queued, ev_position = Some 1\<rparr>,
      \<lparr>ev_task = ''t1'', ev_status = Processing, ev_position = None\<rparr>,
      \<lparr>ev_task = ''t2'', ev_status = Queued, ev_position = Some 1\<rparr>,
      \<lparr>ev_task = ''t2'', ev_status = Processing, ev_position = None\<rparr>] \<and>
   active_transcriptions (add_to_queue (\<lambda>p. True)
     [\<lparr>file_path = ''uploads/b.wav'', output_path = ''outputs/b.txt'', model_name = ''base'',
       language = Some ''en'', gpu_ids = [0], task_id = ''t2''\<rparr>]
     (worker_register
       \<lparr>file_path = ''uploads/a.wav'', output_path = ''outputs/a.txt'', model_name = ''base'',
         language = Some ''en'', gpu_ids = [0], task_id = ''t1''\<rparr>
       (snd (worker_dequeue (add_to_queue (\<lambda>p. True)
         [\<lparr>file_path = ''uploads/a.wav'', output_path = ''outputs/a.txt'', model_name = ''base'',
           language = Some ''en'', gpu_ids = [0], task_id = ''t1''\<rparr>] initial_world))))) ''t1'' =
     Some \<lparr>ti_file = ''a.wav'', ti_gpu_ids = [0]\<rparr> \<and>
   releases (add_to_queue (\<lambda>p. True)
     [\<lparr>file_path = ''uploads/b.wav'', output_path = ''outputs/b.txt'', model_name = ''base'',
       language = Some ''en'', gpu_ids = [0], task_id = ''t2''\<rparr>]
     (worker_register
       \<lparr>file_path = ''uploads/a.wav'', output_path = ''outputs/a.txt'', model_name = ''base'',
         language = Some ''en'', gpu_ids = [0], task_id = ''t1''\<rparr>
       (snd (worker_dequeue (add_to_queue (\<lambda>p. True)
         [\<lparr>file_path = ''uploads/a.wav'', output_path = ''outputs/a.txt'', model_name = ''base'',
           language = Some ''en'', gpu_ids = [0], task_id = ''t1''\<rparr>] initial_world))))) = [] \<and>
   Some (1::nat) \<noteq> Some 2"
  by (simp add: enqueue_task_def emit_def initial_world_def Let_def worker_dequeue_def
      worker_register_def basename_def)

text \<open>When the second task is submitted while the first still waits in the queue, it is
  queued at position 2 without a processing event, and the worker announces it as
  processing as the last event of the round in which it has processed the first task and
  removed it from the registry.\<close>

lemma worker_announces_next_after_cleanup:
  assumes "task_id t1 \<noteq> task_id t2" and "ex (file_path t1)" and "ex (file_path t2)"
  shows
    "events (add_to_queue ex [t2] (add_to_queue ex [t1] initial_world)) =
       [\<lparr>ev_task = task_id t1, ev_status = Queued, ev_position = Some 1\<rparr>,
        \<lparr>ev_task = task_id t1, ev_status = Processing, ev_position = None\<rparr>,
        \<lparr>ev_task = task_id t2, ev_status = Queued, ev_position = Some 2\<rparr>] \<and>
     fst (worker_dequeue (add_to_queue ex [t2] (add_to_queue ex [t1] initial_world))) = Some t1 \<and>
     active_transcriptions
       (worker_run e t1 (worker_register t1
          (snd (worker_dequeue (add_to_queue ex [t2] (add_to_queue ex [t1] initial_world))))))
       (task_id t1) = None \<and>
     \<lparr>ev_task = task_id t2, ev_status = Processing, ev_position = None\<rparr> \<notin> set (events
       (worker_run e t1 (worker_register t1
          (snd (worker_dequeue (add_to_queue ex [t2] (add_to_queue ex [t1] initial_world))))))) \<and>
     events (worker_iteration e (add_to_queue ex [t2] (add_to_queue ex [t1] initial_world))) =
       events (worker_run e t1 (worker_register t1
          (snd (worker_dequeue (add_to_queue ex [t2] (add_to_queue ex [t1] initial_world))))))
       @ [\<lparr>ev_task = task_id t2, ev_status = Processing, ev_position = None\<rparr>]"
proof -
  let ?wB = "add_to_queue ex [t2] (add_to_queue ex [t1] initial_world)"
  let ?w0 = "worker_register t1 (snd (worker_dequeue ?wB))"
  let ?w' = "worker_run e t1 ?w0"
  let ?p2 = "\<lparr>ev_task = task_id t2, ev_status = Processing, ev_position = None\<rparr>"
  have evB: "events ?wB =
       [\<lparr>ev_task = task_id t1, ev_status = Queued, ev_position = Some 1\<rparr>,
        \<lparr>ev_task = task_id t1, ev_status = Processing, ev_position = None\<rparr>,
        \<lparr>ev_task = task_id t2, ev_status = Queued, ev_position = Some 2\<rparr>]"
    using assms(2,3) by (simp add: enqueue_task_def emit_def initial_world_def Let_def)
  have qB: "transcription_queue ?wB = [t1, t2]"
    using assms(2,3) by (simp add: enqueue_task_def emit_def initial_world_def Let_def)
  have deq: "fst (worker_dequeue ?wB) = Some t1"
    unfolding worker_dequeue_def qB by simp
  have ev0: "events ?w0 = events ?wB" and q0: "transcription_queue ?w0 = [t2]"
    unfolding worker_dequeue_def qB by (simp_all add: worker_register_def)
  note we = worker_run_effect[of t1 ?w0 e]
  note act = we[THEN conjunct2, THEN conjunct2]
  note que = we[THEN conjunct2, THEN conjunct1]
  from we[THEN conjunct1] obtain es where
    es: "events ?w' = events ?w0 @ es" "list_all (of_task (task_id t1)) es"
    unfolding extends_events_iff by blast
  have "?p2 \<notin> set (events ?w0)"
    unfolding ev0 evB using assms(1) by simp
  moreover have "?p2 \<notin> set es"
    using es(2) assms(1) by (auto simp: list_all_iff of_task_def)
  ultimately have notin: "?p2 \<notin> set (events ?w')"
    unfolding es(1) by simp
  have q': "transcription_queue ?w' = [t2]" unfolding que q0 ..
  have it: "worker_iteration e ?wB = worker_notify_next ?w'"
    unfolding worker_iteration_def worker_dequeue_def qB by simp
  have last: "events (worker_iteration e ?wB) = events ?w' @ [?p2]"
    unfolding it worker_notify_next_def q' by (simp add: emit_def)
  from evB deq act notin last show ?thesis by blast
qed

end
